theory Spec2Isabelle
  imports Complex_Main "HOL-Library.Sublist"
begin

section \<open>Python values handled by the client\<close>

text \<open>
  The client of \<^verbatim>\<open>src/airtable/client.py\<close> moves JSON-like Python values between flat
  rows and Airtable's wire records. A Python float is one of the three non-finite values
  the codec looks for, or a finite number; the finite payload is kept as a rational, which
  is all that \<^verbatim>\<open>isinf\<close>, \<^verbatim>\<open>isnan\<close>, truthiness and \<^verbatim>\<open>==\<close> need. The constructor
  \<open>NaN\<close> stands for every not-a-number value, so HOL equality on \<open>pyfloat\<close> is the
  comparison "both are NaN, or both are the same number".
\<close>

datatype pyfloat = PosInf | NegInf | NaN | Finite rat

datatype pyval =
    VNone
  | VBool bool
  | VInt int
  | VFloat pyfloat
  | VStr string
  | VList "pyval list"
  | VDict "(string \<times> pyval) list"

text \<open>
  A Python dict is an association list in insertion order; a well-formed dict has
  distinct keys. \<open>row\<close> is a flat row or any other dict with string keys.
\<close>

type_synonym row = "(string \<times> pyval) list"

datatype error =
    KeyError
  | TypeError
  | AttributeError
  | RuntimeError
  | JSONDecodeError
  | TransportError

definition dict_get :: "('k \<times> 'v) list \<Rightarrow> 'k \<Rightarrow> 'v option" where
  "dict_get d k = map_of d k"

text \<open>\<^verbatim>\<open>d[k] = v\<close>: an existing key keeps its position, a new key goes last.\<close>

fun dict_set :: "('k \<times> 'v) list \<Rightarrow> 'k \<Rightarrow> 'v \<Rightarrow> ('k \<times> 'v) list" where
  "dict_set [] k v = [(k, v)]"
| "dict_set ((k', v') # d) k v =
     (if k' = k then (k, v) # d else (k', v') # dict_set d k v)"

text \<open>\<^verbatim>\<open>d.update(other)\<close> stores the entries of \<open>other\<close> one by one.\<close>

definition dict_update :: "('k \<times> 'v) list \<Rightarrow> ('k \<times> 'v) list \<Rightarrow> ('k \<times> 'v) list" where
  "dict_update d other = fold (\<lambda>(k, v) acc. dict_set acc k v) other d"

definition wf_dict :: "('k \<times> 'v) list \<Rightarrow> bool" where
  "wf_dict d = distinct (map fst d)"

text \<open>Python truthiness, as used by \<^verbatim>\<open>if x\<close>, \<^verbatim>\<open>while x\<close> and \<^verbatim>\<open>x if c else y\<close>.\<close>

fun truthy :: "pyval \<Rightarrow> bool" where
  "truthy VNone = False"
| "truthy (VBool b) = b"
| "truthy (VInt i) = (i \<noteq> 0)"
| "truthy (VFloat f) = (f \<noteq> Finite 0)"
| "truthy (VStr s) = (s \<noteq> [])"
| "truthy (VList xs) = (xs \<noteq> [])"
| "truthy (VDict d) = (d \<noteq> [])"

section \<open>Chunking\<close>

text \<open>
  \<^verbatim>\<open>range(start, stop, step)\<close> for a positive step and \<open>start \<le> stop\<close>, and the slice
  \<^verbatim>\<open>data[i : j]\<close> for \<open>0 \<le> i \<le> j\<close> (a slice never raises; it stops at the end of the
  list).
\<close>

definition py_range :: "nat \<Rightarrow> nat \<Rightarrow> nat \<Rightarrow> nat list" where
  "py_range start stop step =
     map (\<lambda>k. start + k * step) [0 ..< (stop - start + step - 1) div step]"

definition py_slice :: "'a list \<Rightarrow> nat \<Rightarrow> nat \<Rightarrow> 'a list" where
  "py_slice xs i j = take (j - i) (drop i xs)"

text \<open>
  \<^verbatim>\<open>chunks = [data[i : i + n] for i in range(0, len(data), n)]\<close>, the comprehension of
  \<^verbatim>\<open>write\<close>, \<^verbatim>\<open>update\<close> and \<^verbatim>\<open>delete\<close>, which all set \<^verbatim>\<open>n = 10\<close>.
\<close>

definition chunked :: "nat \<Rightarrow> 'a list \<Rightarrow> 'a list list" where
  "chunked n data = map (\<lambda>i. py_slice data i (i + n)) (py_range 0 (length data) n)"

section \<open>Dynamic operations on values\<close>

text \<open>
  \<^verbatim>\<open>a == b\<close> on JSON-like values: \<^verbatim>\<open>bool\<close>, \<^verbatim>\<open>int\<close> and \<^verbatim>\<open>float\<close> compare as numbers
  (\<^verbatim>\<open>True == 1 == 1.0\<close>), NaN equals nothing, lists compare element by element and dicts
  entry by entry whatever their order. CPython also takes two references to the same
  object inside a container as equal without calling \<^verbatim>\<open>==\<close>; values here carry no
  identity, so that shortcut is left out.
\<close>

fun num_of :: "pyval \<Rightarrow> pyfloat option" where
  "num_of (VBool b) = Some (Finite (if b then 1 else 0))"
| "num_of (VInt i) = Some (Finite (of_int i))"
| "num_of (VFloat f) = Some f"
| "num_of _ = None"

fun py_eq :: "pyval \<Rightarrow> pyval \<Rightarrow> bool" where
  "py_eq VNone b = (b = VNone)"
| "py_eq (VBool x) b = (case num_of b of Some f \<Rightarrow> f = Finite (if x then 1 else 0) | None \<Rightarrow> False)"
| "py_eq (VInt i) b = (case num_of b of Some f \<Rightarrow> f = Finite (of_int i) | None \<Rightarrow> False)"
| "py_eq (VFloat x) b = (case num_of b of Some f \<Rightarrow> x \<noteq> NaN \<and> f = x | None \<Rightarrow> False)"
| "py_eq (VStr s) b = (b = VStr s)"
| "py_eq (VList xs) b = (case b of VList ys \<Rightarrow> list_all2 py_eq xs ys | _ \<Rightarrow> False)"
| "py_eq (VDict d) b =
     (case b of
        VDict e \<Rightarrow>
          length d = length e \<and>
          list_all (\<lambda>kv. case map_of e (fst kv) of None \<Rightarrow> False | Some w \<Rightarrow> py_eq (snd kv) w) d
      | _ \<Rightarrow> False)"

text \<open>\<^verbatim>\<open>for x in v\<close>: a list gives its elements, a dict its keys, a string its characters.\<close>

fun py_iter :: "pyval \<Rightarrow> error + pyval list" where
  "py_iter (VList xs) = Inr xs"
| "py_iter (VDict d) = Inr (map (\<lambda>kv. VStr (fst kv)) d)"
| "py_iter (VStr s) = Inr (map (\<lambda>c. VStr [c]) s)"
| "py_iter _ = Inl TypeError"

text \<open>\<^verbatim>\<open>v[key]\<close> with a string key: only a dict can be subscripted by a string.\<close>

fun py_getitem :: "pyval \<Rightarrow> string \<Rightarrow> error + pyval" where
  "py_getitem (VDict d) key = (case dict_get d key of None \<Rightarrow> Inl KeyError | Some x \<Rightarrow> Inr x)"
| "py_getitem _ key = Inl TypeError"

text \<open>\<^verbatim>\<open>v.get(key)\<close>: only a dict has the method; a missing key gives \<^verbatim>\<open>None\<close>.\<close>

fun py_get :: "pyval \<Rightarrow> string \<Rightarrow> error + pyval" where
  "py_get (VDict d) key = (case dict_get d key of None \<Rightarrow> Inr VNone | Some x \<Rightarrow> Inr x)"
| "py_get _ key = Inl AttributeError"

text \<open>\<^verbatim>\<open>x in v\<close>: key membership in a dict, element membership in a list, substring in a string.\<close>

fun py_contains :: "pyval \<Rightarrow> pyval \<Rightarrow> error + bool" where
  "py_contains x (VDict d) = Inr (list_ex (\<lambda>kv. py_eq (VStr (fst kv)) x) d)"
| "py_contains x (VList ys) = Inr (list_ex (\<lambda>y. py_eq y x) ys)"
| "py_contains x (VStr s) = (case x of VStr t \<Rightarrow> Inr (sublist t s) | _ \<Rightarrow> Inl TypeError)"
| "py_contains x _ = Inl TypeError"

text \<open>
  \<^verbatim>\<open>[data[i : i + n] for i in range(0, len(data), n)]\<close> on a value: lists and strings have a
  length and slices; a non-empty dict has a length but no slices; anything else has no
  length.
\<close>

fun py_chunks :: "nat \<Rightarrow> pyval \<Rightarrow> error + pyval list" where
  "py_chunks n (VList xs) = Inr (map VList (chunked n xs))"
| "py_chunks n (VStr s) = Inr (map VStr (chunked n s))"
| "py_chunks n (VDict d) = (if d = [] then Inr [] else Inl TypeError)"
| "py_chunks n _ = Inl TypeError"

section \<open>Record transcoding\<close>

text \<open>\<^verbatim>\<open>self._at_rec_id\<close>, the label given to the record identifier in a flat row.\<close>

definition at_rec_id :: string where
  "at_rec_id = ''at_record_id''"

text \<open>
  The body of the inner loop of \<^verbatim>\<open>_process_records_from_at\<close>. A dict whose
  \<^verbatim>\<open>specialValue\<close> entry is truthy goes through the chain of three comparisons, which
  has no final \<^verbatim>\<open>else\<close>: an unrecognised tag stores nothing.
\<close>

definition decode_field :: "string \<times> pyval \<Rightarrow> row \<Rightarrow> row" where
  "decode_field kv newrow =
     (case kv of (k, v) \<Rightarrow>
        (case v of
           VDict d \<Rightarrow>
             (let sv = (case dict_get d ''specialValue'' of None \<Rightarrow> VNone | Some x \<Rightarrow> x) in
              if truthy sv then
                (if py_eq sv (VStr ''Infinity'') then dict_set newrow k (VFloat PosInf)
                 else if py_eq sv (VStr ''-Infinity'') then dict_set newrow k (VFloat NegInf)
                 else if py_eq sv (VStr ''NaN'') then dict_set newrow k (VFloat NaN)
                 else newrow)
              else dict_set newrow k v)
         | _ \<Rightarrow> dict_set newrow k v))"

text \<open>One pass of the outer loop: \<^verbatim>\<open>row["id"]\<close> is read only when \<^verbatim>\<open>keep_id\<close> holds.\<close>

definition from_at_row :: "bool \<Rightarrow> pyval \<Rightarrow> error + row" where
  "from_at_row keep_id rowv =
     (case (if keep_id
            then (case py_getitem rowv ''id'' of Inl e \<Rightarrow> Inl e | Inr i \<Rightarrow> Inr [(at_rec_id, i)])
            else Inr []) of
        Inl e \<Rightarrow> Inl e
      | Inr newrow \<Rightarrow>
          (case py_getitem rowv ''fields'' of
             Inl e \<Rightarrow> Inl e
           | Inr (VDict fs) \<Rightarrow> Inr (fold decode_field fs newrow)
           | Inr _ \<Rightarrow> Inl AttributeError))"

fun from_at_loop :: "bool \<Rightarrow> pyval list \<Rightarrow> row list \<Rightarrow> error + row list" where
  "from_at_loop keep_id [] output = Inr output"
| "from_at_loop keep_id (rowv # rest) output =
     (case from_at_row keep_id rowv of
        Inl e \<Rightarrow> Inl e
      | Inr newrow \<Rightarrow> from_at_loop keep_id rest (output @ [newrow]))"

definition process_records_from_at :: "pyval \<Rightarrow> bool \<Rightarrow> error + row list" where
  "process_records_from_at records keep_id =
     (case py_iter records of
        Inl e \<Rightarrow> Inl e
      | Inr rows \<Rightarrow> from_at_loop keep_id rows [])"

text \<open>The tagged object \<^verbatim>\<open>{"specialValue": tag}\<close>.\<close>

definition special :: "string \<Rightarrow> pyval" where
  "special tag = VDict [(''specialValue'', VStr tag)]"

text \<open>
  Step 2 of \<^verbatim>\<open>_process_records_for_at\<close>, for one entry: \<^verbatim>\<open>isinf(v) and v > 0\<close> is
  \<open>PosInf\<close>, \<^verbatim>\<open>isinf(v) and v < 0\<close> is \<open>NegInf\<close>, \<^verbatim>\<open>isnan(v)\<close> is \<open>NaN\<close>.
\<close>

definition format_special :: "string \<times> pyval \<Rightarrow> row \<Rightarrow> row" where
  "format_special kv newrow =
     (case kv of (k, v) \<Rightarrow>
        (case v of
           VFloat f \<Rightarrow>
             (if f = PosInf then dict_set newrow k (special ''Infinity'')
              else if f = NegInf then dict_set newrow k (special ''-Infinity'')
              else if f = NaN then dict_set newrow k (special ''NaN'')
              else newrow)
         | _ \<Rightarrow> newrow))"

text \<open>
  One pass of the loop of \<^verbatim>\<open>_process_records_for_at\<close>: (1) the dict comprehension that
  resolves \<^verbatim>\<open>None\<close> values, (2) the loop over \<^verbatim>\<open>newrow.items()\<close> that rewrites special
  floats in place, (3) the record in Airtable's format; \<^verbatim>\<open>newrow[self._at_rec_id]\<close> raises
  \<^verbatim>\<open>KeyError\<close> when the key is missing. A row that is not a dict has no \<^verbatim>\<open>items\<close>.
\<close>

definition for_at_row :: "bool \<Rightarrow> bool \<Rightarrow> pyval \<Rightarrow> error + pyval" where
  "for_at_row keep_none new rowv =
     (case rowv of
        VDict row \<Rightarrow>
          (let newrow = (if keep_none then row else filter (\<lambda>kv. snd kv \<noteq> VNone) row);
               newrow = fold format_special newrow newrow
           in if new then Inr (VDict [(''fields'', VDict newrow)])
              else
                (let data = filter (\<lambda>kv. fst kv \<noteq> at_rec_id) newrow in
                 case dict_get newrow at_rec_id of
                   None \<Rightarrow> Inl KeyError
                 | Some i \<Rightarrow> Inr (VDict [(''id'', i), (''fields'', VDict data)])))
      | _ \<Rightarrow> Inl AttributeError)"

fun for_at_loop :: "bool \<Rightarrow> bool \<Rightarrow> pyval list \<Rightarrow> pyval list \<Rightarrow> error + pyval list" where
  "for_at_loop keep_none new [] output = Inr output"
| "for_at_loop keep_none new (rowv # rest) output =
     (case for_at_row keep_none new rowv of
        Inl e \<Rightarrow> Inl e
      | Inr r \<Rightarrow> for_at_loop keep_none new rest (output @ [r]))"

definition process_records_for_at :: "pyval \<Rightarrow> bool \<Rightarrow> bool \<Rightarrow> error + pyval" where
  "process_records_for_at records keep_none new =
     (case py_iter records of
        Inl e \<Rightarrow> Inl e
      | Inr rows \<Rightarrow>
          (case for_at_loop keep_none new rows [] of
             Inl e \<Rightarrow> Inl e
           | Inr output \<Rightarrow> Inr (if new then VList output else VDict [(''records'', VList output)])))"

section \<open>Record matcher\<close>

text \<open>
  \<^verbatim>\<open>all(d[key] == rec[key] for key in keys)\<close>: the generator stops at the first key on
  which the rows differ, and a key missing from either row raises \<^verbatim>\<open>KeyError\<close>.
\<close>

fun all_keys_equal :: "row \<Rightarrow> row \<Rightarrow> string list \<Rightarrow> error + bool" where
  "all_keys_equal d rec [] = Inr True"
| "all_keys_equal d rec (key # keys) =
     (case dict_get d key of
        None \<Rightarrow> Inl KeyError
      | Some a \<Rightarrow>
          (case dict_get rec key of
             None \<Rightarrow> Inl KeyError
           | Some b \<Rightarrow> if py_eq a b then all_keys_equal d rec keys else Inr False))"

text \<open>\<^verbatim>\<open>list(filter(lambda d: all(...), data_w_id))\<close>.\<close>

fun filter_matches :: "row \<Rightarrow> string list \<Rightarrow> row list \<Rightarrow> error + row list" where
  "filter_matches rec keys [] = Inr []"
| "filter_matches rec keys (d # ds) =
     (case all_keys_equal d rec keys of
        Inl e \<Rightarrow> Inl e
      | Inr b \<Rightarrow>
          (case filter_matches rec keys ds of
             Inl e \<Rightarrow> Inl e
           | Inr ms \<Rightarrow> Inr (if b then d # ms else ms)))"

text \<open>\<^verbatim>\<open>uid = {k: rec[k] for k in keys}\<close>.\<close>

fun uid_of :: "row \<Rightarrow> string list \<Rightarrow> row \<Rightarrow> error + row" where
  "uid_of rec [] uid = Inr uid"
| "uid_of rec (k # keys) uid =
     (case dict_get rec k of
        None \<Rightarrow> Inl KeyError
      | Some v \<Rightarrow> uid_of rec keys (dict_set uid k v))"

text \<open>
  \<^verbatim>\<open>updated.remove(rec)\<close>, where \<open>rec\<close> is the object at index \<open>i\<close> of the list: the
  first element that is \<open>rec\<close> itself or equal to it is removed. The rows of a list are
  taken to be separate objects.
\<close>

fun list_remove :: "nat \<Rightarrow> row \<Rightarrow> row list \<Rightarrow> row list" where
  "list_remove i rec [] = []"
| "list_remove i rec (x # xs) =
     (if i = 0 \<or> py_eq (VDict x) (VDict rec) then xs else x # list_remove (i - 1) rec xs)"

text \<open>
  The loop \<^verbatim>\<open>for rec in updated\<close> of \<^verbatim>\<open>match_at_rec_id\<close>. A Python list iterator keeps
  an index into the live list: each pass reads \<^verbatim>\<open>updated[i]\<close> and moves to \<open>i + 1\<close>, and
  the loop ends when the index reaches the current length; the body removes an element
  from that same list. \<^verbatim>\<open>rec[self._at_rec_id] = ...\<close> changes the row at index \<open>i\<close>.
\<close>

function match_loop ::
  "nat \<Rightarrow> string list \<Rightarrow> row list \<Rightarrow> row list \<Rightarrow> row list \<Rightarrow> row list
   \<Rightarrow> error + (row list \<times> row list \<times> row list)" where
  "match_loop i keys data_w_id updated missing_id not_updated =
     (if i < length updated then
        (let rec = updated ! i in
         case filter_matches rec keys data_w_id of
           Inl e \<Rightarrow> Inl e
         | Inr rec_id_list \<Rightarrow>
             if rec_id_list \<noteq> [] then
               (if length rec_id_list > 1 then Inl RuntimeError
                else
                  (case dict_get (hd rec_id_list) at_rec_id of
                     None \<Rightarrow> Inl KeyError
                   | Some v \<Rightarrow>
                       match_loop (i + 1) keys data_w_id
                         (updated[i := dict_set rec at_rec_id v]) missing_id not_updated))
             else
               (case uid_of rec keys [] of
                  Inl e \<Rightarrow> Inl e
                | Inr uid \<Rightarrow>
                    match_loop (i + 1) keys data_w_id
                      (list_remove i rec updated) (missing_id @ [uid]) (not_updated @ [rec])))
      else Inr (updated, missing_id, not_updated))"
  by pat_completeness auto
termination
proof (relation "measure (\<lambda>(i, keys, data_w_id, updated, missing_id, not_updated). length updated - i)",
    goal_cases)
  case 1
  show ?case by simp
next
  case 2
  then show ?case by simp
next
  case (3 i keys data_w_id updated missing_id not_updated rec)
  have "length (list_remove j x xs) \<le> length xs" for j x xs
    by (induction xs arbitrary: j) auto
  then have "length (list_remove i rec updated) \<le> length updated" .
  with 3(1) show ?case by simp
qed

text \<open>\<^verbatim>\<open>updated = data_wo_id.copy()\<close>, then the loop from the first index.\<close>

definition match_at_rec_id ::
  "row list \<Rightarrow> row list \<Rightarrow> string list \<Rightarrow> error + (row list \<times> row list \<times> row list)" where
  "match_at_rec_id data_wo_id data_w_id keys = match_loop 0 keys data_w_id data_wo_id [] []"

section \<open>The client and its HTTP collaborator\<close>

text \<open>
  The state of a client that the four operations read: \<^verbatim>\<open>self._base\<close> (set only when
  a base was given to the constructor; reading it otherwise raises
  \<^verbatim>\<open>AttributeError\<close>), \<^verbatim>\<open>self.__headers\<close>, \<^verbatim>\<open>self.__cache_header\<close>,
  \<^verbatim>\<open>self._cache_token\<close> and \<^verbatim>\<open>self._process\<close>.
\<close>

record client =
  c_base :: "string option"
  c_headers :: row
  c_cache_header :: row
  c_cache_token :: "string option"
  c_process :: bool

definition at_url :: string where
  "at_url = ''https://api.airtable.com/v0''"

definition cache_url :: string where
  "cache_url = ''https://at-cache-hfrsqgk6ja-uc.a.run.app/airtable/v0''"

text \<open>
  \<^verbatim>\<open>__init__\<close>. The logger, the personal token and the webhook headers are not read by
  \<^verbatim>\<open>get\<close>, \<^verbatim>\<open>write\<close>, \<^verbatim>\<open>update\<close> or \<^verbatim>\<open>delete\<close>.
\<close>

definition client_init :: "string \<Rightarrow> bool \<Rightarrow> string option \<Rightarrow> string option \<Rightarrow> client" where
  "client_init apikey process cache_token base =
     \<lparr> c_base = base,
       c_headers = [(''Authorization'', VStr (''Bearer '' @ apikey)),
                    (''Content-Type'', VStr ''application/json'')],
       c_cache_header = [(''X-Mw-Bearer'', (case cache_token of None \<Rightarrow> VNone | Some t \<Rightarrow> VStr t))],
       c_cache_token = cache_token,
       c_process = process \<rparr>"

text \<open>
  The HTTP collaborator \<^verbatim>\<open>self._session\<close> is a script: each request is logged and
  answered by the next pending response. A response is what the code reads of it:
  \<^verbatim>\<open>r.status_code\<close>, \<^verbatim>\<open>r.json()\<close> (\<open>None\<close> when the body is not JSON, where the call
  raises) and \<^verbatim>\<open>r.text\<close>. With no response left the collaborator raises.
\<close>

datatype http_method = GET | POST | PATCH | DELETE

record request =
  req_method :: http_method
  req_url :: string
  req_headers :: row
  req_params :: row
  req_data :: "pyval option"

record response =
  status_code :: int
  json :: "pyval option"
  text_of :: string

record session =
  pending :: "response list"
  sent :: "request list"

definition send :: "request \<Rightarrow> session \<Rightarrow> response option \<times> session" where
  "send rq s =
     (case pending s of
        [] \<Rightarrow> (None, s\<lparr>sent := sent s @ [rq]\<rparr>)
      | r # rs \<Rightarrow> (Some r, s\<lparr>pending := rs, sent := sent s @ [rq]\<rparr>))"

text \<open>\<^verbatim>\<open>base = base if base else self._base\<close>.\<close>

definition resolve_base :: "string option \<Rightarrow> client \<Rightarrow> error + string" where
  "resolve_base base c =
     (case base of
        Some b \<Rightarrow> if b \<noteq> [] then Inr b else (case c_base c of None \<Rightarrow> Inl AttributeError | Some b' \<Rightarrow> Inr b')
      | None \<Rightarrow> (case c_base c of None \<Rightarrow> Inl AttributeError | Some b' \<Rightarrow> Inr b'))"

text \<open>\<^verbatim>\<open>process = self._process if process is None else process\<close>.\<close>

definition resolve_process :: "bool option \<Rightarrow> client \<Rightarrow> bool" where
  "resolve_process process c = (case process of None \<Rightarrow> c_process c | Some p \<Rightarrow> p)"

text \<open>\<^verbatim>\<open>records.extend(v)\<close>.\<close>

definition extend :: "pyval list \<Rightarrow> pyval \<Rightarrow> error + pyval list" where
  "extend records v = (case py_iter v of Inl e \<Rightarrow> Inl e | Inr xs \<Rightarrow> Inr (records @ xs))"

section \<open>Reading: get\<close>

text \<open>
  One page of the loop of \<^verbatim>\<open>get\<close>, after the request: the status check, then
  \<^verbatim>\<open>records.extend(json_object["records"] if json_object.get("records") else [])\<close> and
  \<^verbatim>\<open>offset = json_object.get("offset")\<close>. \<^verbatim>\<open>_identify_errors\<close> only writes to the logger.
\<close>

definition read_page :: "response \<Rightarrow> pyval list \<Rightarrow> error + (pyval list \<times> pyval)" where
  "read_page r records =
     (if status_code r \<noteq> 200 then Inl RuntimeError
      else
        (case json r of
           None \<Rightarrow> Inl JSONDecodeError
         | Some json_object \<Rightarrow>
             (case py_get json_object ''records'' of
                Inl e \<Rightarrow> Inl e
              | Inr recs \<Rightarrow>
                  (case (if truthy recs then py_getitem json_object ''records'' else Inr (VList [])) of
                     Inl e \<Rightarrow> Inl e
                   | Inr page \<Rightarrow>
                       (case extend records page of
                          Inl e \<Rightarrow> Inl e
                        | Inr records' \<Rightarrow>
                            (case py_get json_object ''offset'' of
                               Inl e \<Rightarrow> Inl e
                             | Inr offset \<Rightarrow> Inr (records', offset)))))))"

text \<open>
  The loop \<^verbatim>\<open>while offset\<close>, entered with \<^verbatim>\<open>offset = True\<close>. The \<^verbatim>\<open>offset\<close> parameter is
  set when the offset is truthy and is not the object \<^verbatim>\<open>True\<close>.
\<close>

function get_loop ::
  "string \<Rightarrow> row \<Rightarrow> row \<Rightarrow> pyval \<Rightarrow> pyval list \<Rightarrow> session \<Rightarrow> (error + pyval list) \<times> session" where
  "get_loop url hdrs params offset records s =
     (if truthy offset then
        (let params = (if truthy offset \<and> offset \<noteq> VBool True
                       then dict_update params [(''offset'', offset)] else params);
             rq = \<lparr> req_method = GET, req_url = url, req_headers = hdrs,
                    req_params = params, req_data = None \<rparr>
         in case pending s of
              [] \<Rightarrow> (Inl TransportError, snd (send rq s))
            | r # rs \<Rightarrow>
                (case read_page r records of
                   Inl e \<Rightarrow> (Inl e, snd (send rq s))
                 | Inr (records', offset') \<Rightarrow>
                     get_loop url hdrs params offset' records' (snd (send rq s))))
      else (Inr records, s))"
  by pat_completeness auto
termination
proof (relation "measure (\<lambda>(url, hdrs, params, offset, records, s). length (pending s))", goal_cases)
  case 1
  show ?case by simp
next
  case 2
  then show ?case by (simp add: send_def)
qed

text \<open>
  \<^verbatim>\<open>get\<close>. \<^verbatim>\<open>headers = self.__headers\<close> names the client's own dict, so
  \<^verbatim>\<open>headers.update(self.__cache_header)\<close> writes into \<^verbatim>\<open>self.__headers\<close>: the client
  returned carries the updated headers, also when the call raises later.
\<close>

definition get ::
  "client \<Rightarrow> session \<Rightarrow> string \<Rightarrow> string option \<Rightarrow> string option \<Rightarrow> bool option \<Rightarrow> bool
   \<Rightarrow> (error + pyval list) \<times> client \<times> session" where
  "get c s table view base process direct =
     (let direct = (if c_cache_token c = None then True else direct) in
      case resolve_base base c of
        Inl e \<Rightarrow> (Inl e, c, s)
      | Inr base \<Rightarrow>
          (let process = resolve_process process c;
               url = (if direct then at_url else cache_url);
               c' = (if \<not> direct then c\<lparr>c_headers := dict_update (c_headers c) (c_cache_header c)\<rparr> else c);
               headers = c_headers c';
               url = url @ ''/'' @ base @ ''/'' @ table;
               params = (case view of
                           None \<Rightarrow> []
                         | Some v \<Rightarrow> if v \<noteq> [] then dict_update [] [(''view'', VStr v)] else [])
           in case get_loop url headers params (VBool True) [] s of
                (Inl e, s') \<Rightarrow> (Inl e, c', s')
              | (Inr records, s') \<Rightarrow>
                  if process then
                    (case process_records_from_at (VList records) True of
                       Inl e \<Rightarrow> (Inl e, c', s')
                     | Inr rows \<Rightarrow> (Inr (map VDict rows), c', s'))
                  else (Inr records, c', s')))"

section \<open>Mutating operations: write, update, delete\<close>

text \<open>\<^verbatim>\<open>if type(data) == dict: data = data["records"]\<close>.\<close>

definition unwrap_records :: "pyval \<Rightarrow> error + pyval" where
  "unwrap_records data = (case data of VDict d \<Rightarrow> py_getitem data ''records'' | _ \<Rightarrow> Inr data)"

text \<open>
  The loop of \<^verbatim>\<open>write\<close>: one POST per chunk. On a status other than 200 the body is
  decoded and searched for \<^verbatim>\<open>"error"\<close> (both can raise on their own) before
  \<^verbatim>\<open>RuntimeError\<close> is raised; the records gathered so far are dropped with the frame.
\<close>

fun write_loop ::
  "string \<Rightarrow> row \<Rightarrow> pyval list \<Rightarrow> pyval list \<Rightarrow> session \<Rightarrow> (error + pyval list) \<times> session" where
  "write_loop url hdrs [] records s = (Inr records, s)"
| "write_loop url hdrs (chunk # rest) records s =
     (case send \<lparr> req_method = POST, req_url = url, req_headers = hdrs, req_params = [],
                   req_data = Some (VDict [(''records'', chunk)]) \<rparr> s of
        (None, s') \<Rightarrow> (Inl TransportError, s')
      | (Some r, s') \<Rightarrow>
          if status_code r \<noteq> 200 then
            (case json r of
               None \<Rightarrow> (Inl JSONDecodeError, s')
             | Some airtable_response \<Rightarrow>
                 (case py_contains (VStr ''error'') airtable_response of
                    Inl e \<Rightarrow> (Inl e, s')
                  | Inr b \<Rightarrow> (Inl RuntimeError, s')))
          else
            (case json r of
               None \<Rightarrow> (Inl JSONDecodeError, s')
             | Some j \<Rightarrow>
                 (case py_getitem j ''records'' of
                    Inl e \<Rightarrow> (Inl e, s')
                  | Inr v \<Rightarrow>
                      (case extend records v of
                         Inl e \<Rightarrow> (Inl e, s')
                       | Inr records' \<Rightarrow> write_loop url hdrs rest records' s'))))"

text \<open>\<^verbatim>\<open>write\<close> (named \<open>write_op\<close>: \<open>write\<close> is a reserved word here).\<close>

definition write_op ::
  "client \<Rightarrow> session \<Rightarrow> string \<Rightarrow> pyval \<Rightarrow> string option \<Rightarrow> bool option
   \<Rightarrow> (error + pyval list) \<times> session" where
  "write_op c s table data base process =
     (case resolve_base base c of
        Inl e \<Rightarrow> (Inl e, s)
      | Inr base \<Rightarrow>
          (case (if resolve_process process c
                 then process_records_for_at data False True else Inr data) of
             Inl e \<Rightarrow> (Inl e, s)
           | Inr data \<Rightarrow>
               (case unwrap_records data of
                  Inl e \<Rightarrow> (Inl e, s)
                | Inr data \<Rightarrow>
                    (case py_chunks 10 data of
                       Inl e \<Rightarrow> (Inl e, s)
                     | Inr chunks \<Rightarrow>
                         write_loop (at_url @ ''/'' @ base @ ''/'' @ table) (c_headers c)
                           chunks [] s))))"

text \<open>The loop of \<^verbatim>\<open>update\<close>: one PATCH per chunk; the body is decoded before the status check.\<close>

fun update_loop ::
  "string \<Rightarrow> row \<Rightarrow> pyval list \<Rightarrow> pyval list \<Rightarrow> session \<Rightarrow> (error + pyval list) \<times> session" where
  "update_loop url hdrs [] records s = (Inr records, s)"
| "update_loop url hdrs (chunk # rest) records s =
     (case send \<lparr> req_method = PATCH, req_url = url, req_headers = hdrs, req_params = [],
                   req_data = Some (VDict [(''records'', chunk)]) \<rparr> s of
        (None, s') \<Rightarrow> (Inl TransportError, s')
      | (Some r, s') \<Rightarrow>
          (case json r of
             None \<Rightarrow> (Inl JSONDecodeError, s')
           | Some airtable_response \<Rightarrow>
               if status_code r \<noteq> 200 then
                 (case py_contains (VStr ''error'') airtable_response of
                    Inl e \<Rightarrow> (Inl e, s')
                  | Inr b \<Rightarrow> (Inl RuntimeError, s'))
               else
                 (case py_getitem airtable_response ''records'' of
                    Inl e \<Rightarrow> (Inl e, s')
                  | Inr v \<Rightarrow>
                      (case extend records v of
                         Inl e \<Rightarrow> (Inl e, s')
                       | Inr records' \<Rightarrow> update_loop url hdrs rest records' s'))))"

definition update ::
  "client \<Rightarrow> session \<Rightarrow> string \<Rightarrow> pyval \<Rightarrow> string option \<Rightarrow> bool option \<Rightarrow> bool
   \<Rightarrow> (error + pyval list) \<times> session" where
  "update c s table data base process keep_none =
     (case resolve_base base c of
        Inl e \<Rightarrow> (Inl e, s)
      | Inr base \<Rightarrow>
          (case (if resolve_process process c
                 then process_records_for_at data keep_none False else Inr data) of
             Inl e \<Rightarrow> (Inl e, s)
           | Inr data \<Rightarrow>
               (case unwrap_records data of
                  Inl e \<Rightarrow> (Inl e, s)
                | Inr data \<Rightarrow>
                    (case py_chunks 10 data of
                       Inl e \<Rightarrow> (Inl e, s)
                     | Inr chunks \<Rightarrow>
                         update_loop (at_url @ ''/'' @ base @ ''/'' @ table) (c_headers c)
                           chunks [] s))))"

text \<open>The loop of \<^verbatim>\<open>delete\<close>: one DELETE per chunk, the identifiers as a query parameter.\<close>

fun delete_loop ::
  "string \<Rightarrow> row \<Rightarrow> pyval list \<Rightarrow> pyval list \<Rightarrow> session \<Rightarrow> (error + pyval list) \<times> session" where
  "delete_loop url hdrs [] records s = (Inr records, s)"
| "delete_loop url hdrs (chunk # rest) records s =
     (case send \<lparr> req_method = DELETE, req_url = url, req_headers = hdrs,
                   req_params = [(''records[]'', chunk)], req_data = None \<rparr> s of
        (None, s') \<Rightarrow> (Inl TransportError, s')
      | (Some r, s') \<Rightarrow>
          if status_code r \<noteq> 200 then (Inl RuntimeError, s')
          else
            (case json r of
               None \<Rightarrow> (Inl JSONDecodeError, s')
             | Some j \<Rightarrow>
                 (case py_getitem j ''records'' of
                    Inl e \<Rightarrow> (Inl e, s')
                  | Inr v \<Rightarrow>
                      (case extend records v of
                         Inl e \<Rightarrow> (Inl e, s')
                       | Inr records' \<Rightarrow> delete_loop url hdrs rest records' s'))))"

definition delete ::
  "client \<Rightarrow> session \<Rightarrow> string \<Rightarrow> pyval \<Rightarrow> string option \<Rightarrow> (error + pyval list) \<times> session" where
  "delete c s table list_of_ids base =
     (case resolve_base base c of
        Inl e \<Rightarrow> (Inl e, s)
      | Inr base \<Rightarrow>
          (case py_chunks 10 list_of_ids of
             Inl e \<Rightarrow> (Inl e, s)
           | Inr chunks \<Rightarrow>
               delete_loop (at_url @ ''/'' @ base @ ''/'' @ table) (c_headers c) chunks [] s))"

section \<open>The codec, value by value\<close>

text \<open>
  The codec of the specification, read off the two loops: \<open>encode_value\<close> is the value
  that step 2 of \<^verbatim>\<open>_process_records_for_at\<close> leaves under a key, \<open>tag_of\<close> is
  \<^verbatim>\<open>v.get("specialValue")\<close> for a dict (and \<^verbatim>\<open>None\<close> for anything else), and
  \<open>decode_value\<close> is the value that the inner loop of \<^verbatim>\<open>_process_records_from_at\<close> stores
  under a key, \<open>None\<close> when it stores nothing. The lemmas \<open>format_special_eq\<close> and
  \<open>decode_field_eq\<close> tie them to the loop bodies.
\<close>

definition encode_value :: "pyval \<Rightarrow> pyval" where
  "encode_value v =
     (if v = VFloat PosInf then special ''Infinity''
      else if v = VFloat NegInf then special ''-Infinity''
      else if v = VFloat NaN then special ''NaN''
      else v)"

definition tag_of :: "pyval \<Rightarrow> pyval" where
  "tag_of v =
     (case v of
        VDict d \<Rightarrow> (case dict_get d ''specialValue'' of None \<Rightarrow> VNone | Some x \<Rightarrow> x)
      | _ \<Rightarrow> VNone)"

definition decode_value :: "pyval \<Rightarrow> pyval option" where
  "decode_value v =
     (if truthy (tag_of v) then
        (if tag_of v = VStr ''Infinity'' then Some (VFloat PosInf)
         else if tag_of v = VStr ''-Infinity'' then Some (VFloat NegInf)
         else if tag_of v = VStr ''NaN'' then Some (VFloat NaN)
         else None)
      else Some v)"

text \<open>The scalar field values: everything but arrays and objects.\<close>

fun is_scalar :: "pyval \<Rightarrow> bool" where
  "is_scalar (VList xs) = False"
| "is_scalar (VDict d) = False"
| "is_scalar _ = True"

text \<open>
  A page as the wire format of a read response describes it, read off the response
  itself and not through the loop: \<open>page_wf\<close> says that the status is 200 and the body is
  a JSON object whose \<^verbatim>\<open>records\<close> field is missing or a list; \<open>json_records\<close> is that
  list (empty when the field is missing); \<open>json_offset\<close> is the value of the \<^verbatim>\<open>offset\<close>
  field (\<^verbatim>\<open>None\<close> when the field is missing).
\<close>

definition page_wf :: "response \<Rightarrow> bool" where
  "page_wf r =
     (status_code r = 200 \<and>
      (case json r of
         None \<Rightarrow> False
       | Some body \<Rightarrow>
           (case body of
              VDict d \<Rightarrow>
                (case dict_get d ''records'' of
                   None \<Rightarrow> True
                 | Some v \<Rightarrow> (case v of VList xs \<Rightarrow> True | _ \<Rightarrow> False))
            | _ \<Rightarrow> False)))"

definition json_records :: "response \<Rightarrow> pyval list" where
  "json_records r =
     (case json r of
        None \<Rightarrow> []
      | Some body \<Rightarrow>
          (case body of
             VDict d \<Rightarrow>
               (case dict_get d ''records'' of
                  None \<Rightarrow> []
                | Some v \<Rightarrow> (case v of VList xs \<Rightarrow> xs | _ \<Rightarrow> []))
           | _ \<Rightarrow> []))"

definition json_offset :: "response \<Rightarrow> pyval" where
  "json_offset r =
     (case json r of
        None \<Rightarrow> VNone
      | Some body \<Rightarrow>
          (case body of
             VDict d \<Rightarrow> (case dict_get d ''offset'' of None \<Rightarrow> VNone | Some v \<Rightarrow> v)
           | _ \<Rightarrow> VNone))"

text \<open>
  The parameters of the requests that the loop sends when it is entered with \<open>params\<close>
  and then sees the given offsets one after the other: each offset other than the
  object \<^verbatim>\<open>True\<close> is stored under \<^verbatim>\<open>offset\<close>, and \<^verbatim>\<open>True\<close> leaves the parameters
  as they are.
\<close>

fun params_seq :: "row \<Rightarrow> pyval list \<Rightarrow> row list" where
  "params_seq params [] = []"
| "params_seq params (offset # offsets) =
     (let params' = (if offset \<noteq> VBool True then dict_set params ''offset'' offset else params)
      in params' # params_seq params' offsets)"

section \<open>A caller of the client\<close>

text \<open>
  A caller's program on one client instance and one session: public calls made one after
  the other, whatever each of them returns or raises. Only \<^verbatim>\<open>get\<close> can change the
  client.
\<close>

datatype call =
    Get string "string option" "string option" "bool option" bool
  | Write string pyval "string option" "bool option"
  | Update string pyval "string option" "bool option" bool
  | Delete string pyval "string option"

fun run_call :: "call \<Rightarrow> client \<times> session \<Rightarrow> client \<times> session" where
  "run_call (Get table view base process direct) (c, s) =
     snd (get c s table view base process direct)"
| "run_call (Write table data base process) (c, s) =
     (c, snd (write_op c s table data base process))"
| "run_call (Update table data base process keep_none) (c, s) =
     (c, snd (update c s table data base process keep_none))"
| "run_call (Delete table list_of_ids base) (c, s) =
     (c, snd (delete c s table list_of_ids base))"

definition run_calls :: "call list \<Rightarrow> client \<times> session \<Rightarrow> client \<times> session" where
  "run_calls calls cs = fold run_call calls cs"

section \<open>Properties of chunking\<close>

lemma chunks_Nil: "chunked n [] = []"
  by (cases n) (simp_all add: chunked_def py_range_def)

lemma py_range_short:
  assumes "0 < n" "0 < m" "m \<le> n"
  shows "py_range 0 m n = [0]"
proof -
  have "(m + n - 1) div n = 1"
    using assms by (simp add: div_nat_eqI)
  then show ?thesis by (simp add: py_range_def)
qed

lemma py_range_long:
  assumes "0 < n" "n < m"
  shows "py_range 0 m n = 0 # map (\<lambda>i. i + n) (py_range 0 (m - n) n)"
proof -
  have "(m + n - 1) div n = Suc ((m - n + n - 1) div n)"
  proof -
    have "m + n - 1 = (m - n + n - 1) + n" using assms by simp
    then show ?thesis using assms by (metis div_add_self2 not_less_zero Suc_eq_plus1 less_nat_zero_code neq0_conv)
  qed
  then have "[0 ..< (m + n - 1) div n] = 0 # map Suc [0 ..< (m - n + n - 1) div n]"
    by (simp add: upt_conv_Cons map_Suc_upt del: upt_Suc)
  then show ?thesis
    by (simp add: py_range_def comp_def)
qed

lemma chunks_short:
  assumes "0 < n" "xs \<noteq> []" "length xs \<le> n"
  shows "chunked n xs = [xs]"
  using assms by (simp add: chunked_def py_range_short py_slice_def)

lemma chunks_long:
  assumes "0 < n" "n < length xs"
  shows "chunked n xs = take n xs # chunked n (drop n xs)"
  using assms
  by (simp add: chunked_def py_range_long py_slice_def comp_def add.commute)

lemma concat_chunks: "0 < n \<Longrightarrow> concat (chunked n xs) = xs"
proof (induction "length xs" arbitrary: xs rule: less_induct)
  case less
  show ?case
  proof (cases "length xs \<le> n")
    case True
    then show ?thesis
      using less.prems by (cases "xs = []") (simp_all add: chunks_Nil chunks_short)
  next
    case False
    then have "concat (chunked n (drop n xs)) = drop n xs"
      using less by simp
    then show ?thesis
      using False less.prems by (simp add: chunks_long)
  qed
qed

lemma chunks_butlast_length:
  "0 < n \<Longrightarrow> c \<in> set (butlast (chunked n xs)) \<Longrightarrow> length c = n"
proof (induction "length xs" arbitrary: xs rule: less_induct)
  case less
  show ?case
  proof (cases "length xs \<le> n")
    case True
    then show ?thesis
      using less.prems by (cases "xs = []") (simp_all add: chunks_Nil chunks_short)
  next
    case False
    have ne: "chunked n (drop n xs) \<noteq> []"
    proof
      assume "chunked n (drop n xs) = []"
      then have "concat (chunked n (drop n xs)) = []" by simp
      then have "drop n xs = []" using less.prems(1) by (simp add: concat_chunks)
      then show False using False by simp
    qed
    from less.prems(2) False less.prems(1) ne
    have "c = take n xs \<or> c \<in> set (butlast (chunked n (drop n xs)))"
      by (simp add: chunks_long)
    then show ?thesis
    proof
      assume "c = take n xs"
      then show ?thesis using False by simp
    next
      assume "c \<in> set (butlast (chunked n (drop n xs)))"
      then show ?thesis using less.hyps[of "drop n xs"] less.prems(1) False by simp
    qed
  qed
qed

lemma chunks_last_length:
  "0 < n \<Longrightarrow> c \<in> set (chunked n xs) \<Longrightarrow> 0 < length c \<and> length c \<le> n"
proof (induction "length xs" arbitrary: xs rule: less_induct)
  case less
  show ?case
  proof (cases "length xs \<le> n")
    case True
    then show ?thesis
      using less.prems by (cases "xs = []") (simp_all add: chunks_Nil chunks_short)
  next
    case False
    from less.prems(2) False less.prems(1)
    have "c = take n xs \<or> c \<in> set (chunked n (drop n xs))"
      by (simp add: chunks_long)
    then show ?thesis
    proof
      assume "c = take n xs"
      then show ?thesis using False less.prems(1) by simp
    next
      assume "c \<in> set (chunked n (drop n xs))"
      then show ?thesis using less.hyps[of "drop n xs"] less.prems(1) False by simp
    qed
  qed
qed

text \<open>
  Claim C3. With the chunk size 10 of \<^verbatim>\<open>write\<close>, \<^verbatim>\<open>update\<close> and \<^verbatim>\<open>delete\<close>, the chunks
  of any sequence, concatenated in order, give the sequence back; every chunk but the
  last has exactly 10 elements (and the last between 1 and 10); the empty sequence has
  no chunks.
\<close>

theorem chunks_partition:
  "concat (chunked 10 S) = S
   \<and> (\<forall>c \<in> set (butlast (chunked 10 S)). length c = 10)
   \<and> (\<forall>c \<in> set (chunked 10 S). 0 < length c \<and> length c \<le> 10)
   \<and> chunked 10 ([] :: 'a list) = []"
proof -
  have pos: "0 < (10::nat)" by simp
  have "concat (chunked 10 S) = S"
    by (rule concat_chunks[OF pos])
  moreover have "\<forall>c \<in> set (butlast (chunked 10 S)). length c = 10"
    using chunks_butlast_length[OF pos] by blast
  moreover have "\<forall>c \<in> set (chunked 10 S). 0 < length c \<and> length c \<le> 10"
    using chunks_last_length[OF pos] by blast
  moreover have "chunked 10 ([] :: 'a list) = []"
    by (rule chunks_Nil)
  ultimately show ?thesis by blast
qed

theorem chunks_partition_witness:
  "[0 ..< 10::nat] \<in> set (butlast (chunked 10 [0 ..< 25]))
   \<and> length [0 ..< 10::nat] = 10
   \<and> concat (chunked 10 [0 ..< 25::nat]) = [0 ..< 25]"
proof -
  have "[0 ..< 10::nat] \<in> set (butlast (chunked 10 [0 ..< 25]))"
    by code_simp
  with chunks_partition[of "[0 ..< 25::nat]"] show ?thesis by blast
qed

section \<open>Dicts\<close>

lemma dict_get_Nil: "dict_get [] k = None"
  by (simp add: dict_get_def)

lemma dict_get_Cons: "dict_get ((k, v) # d) k' = (if k' = k then Some v else dict_get d k')"
  by (simp add: dict_get_def)

lemma dict_get_None_iff: "dict_get d k = None \<longleftrightarrow> k \<notin> fst ` set d"
  by (simp add: dict_get_def map_of_eq_None_iff)

lemma dict_get_dict_set:
  "dict_get (dict_set d k v) k' = (if k' = k then Some v else dict_get d k')"
  by (induction d) (auto simp: dict_get_def)

lemma dict_set_new: "k \<notin> fst ` set d \<Longrightarrow> dict_set d k v = d @ [(k, v)]"
  by (induction d) auto

lemma dict_set_at:
  "k \<notin> fst ` set pre \<Longrightarrow> dict_set (pre @ (k, v) # rest) k w = pre @ (k, w) # rest"
  by (induction pre) auto

lemma dict_set_twice: "dict_set (dict_set d k v) k w = dict_set d k w"
  by (induction d) auto




lemma py_eq_VStr: "py_eq sv (VStr s) = (sv = VStr s)"
  by (cases sv) (auto split: pyval.splits)

section \<open>Properties of the transcoder\<close>

lemma format_special_eq:
  "format_special (k, v) newrow =
     (if encode_value v = v then newrow else dict_set newrow k (encode_value v))"
  by (auto simp: format_special_def encode_value_def special_def
      split: pyval.splits pyfloat.splits)

lemma decode_field_eq:
  "decode_field (k, v) newrow =
     (case decode_value v of None \<Rightarrow> newrow | Some w \<Rightarrow> dict_set newrow k w)"
  by (auto simp: decode_field_def decode_value_def tag_of_def py_eq_VStr Let_def
      split: pyval.splits option.splits)

lemma fold_format_special:
  "distinct (map fst (pre @ xs)) \<Longrightarrow>
   fold format_special xs (pre @ xs) = pre @ map (\<lambda>kv. (fst kv, encode_value (snd kv))) xs"
proof (induction xs arbitrary: pre)
  case Nil
  then show ?case by simp
next
  case (Cons kv xs)
  obtain k v where kv: "kv = (k, v)" by (cases kv)
  have notin: "k \<notin> fst ` set pre" using Cons.prems kv by auto
  have step: "format_special kv (pre @ kv # xs) = (pre @ [(k, encode_value v)]) @ xs"
    using dict_set_at[OF notin] by (simp add: kv format_special_eq)
  have "distinct (map fst ((pre @ [(k, encode_value v)]) @ xs))"
    using Cons.prems kv by auto
  from Cons.IH[OF this] step show ?case by (simp add: kv)
qed

lemma step2_eq:
  "wf_dict row \<Longrightarrow> fold format_special row row = map (\<lambda>kv. (fst kv, encode_value (snd kv))) row"
  using fold_format_special[of "[]" row] by (simp add: wf_dict_def)

lemma dict_get_fold_decode:
  "distinct (map fst fs) \<Longrightarrow>
   dict_get (fold decode_field fs acc) k =
     (case dict_get fs k of
        None \<Rightarrow> dict_get acc k
      | Some v \<Rightarrow> (case decode_value v of None \<Rightarrow> dict_get acc k | Some w \<Rightarrow> Some w))"
proof (induction fs arbitrary: acc)
  case Nil
  then show ?case by (simp add: dict_get_def)
next
  case (Cons kv fs)
  obtain k' v' where kv: "kv = (k', v')" by (cases kv)
  have d: "distinct (map fst fs)" and notin: "k' \<notin> fst ` set fs"
    using Cons.prems kv by auto
  have later: "dict_get fs k' = None"
    using notin by (simp add: dict_get_def map_of_eq_None_iff)
  show ?case
    using Cons.IH[OF d, of "decode_field kv acc"] later
    by (auto simp: kv decode_field_eq dict_get_dict_set dict_get_Cons split: option.splits)
qed

lemma for_at_loop_ok:
  "\<forall>x \<in> set rowvs. for_at_row keep_none new x = Inr (f x) \<Longrightarrow>
   for_at_loop keep_none new rowvs out = Inr (out @ map f rowvs)"
  by (induction rowvs arbitrary: out) auto


lemma for_at_loop_Inl:
  "x \<in> set rowvs \<Longrightarrow> for_at_row keep_none new x = Inl e \<Longrightarrow>
   \<exists>e'. for_at_loop keep_none new rowvs out = Inl e' \<and>
        (\<exists>y \<in> set rowvs. for_at_row keep_none new y = Inl e')"
proof (induction rowvs arbitrary: out)
  case Nil
  then show ?case by simp
next
  case (Cons y rowvs)
  show ?case
  proof (cases "for_at_row keep_none new y")
    case (Inl e0)
    then show ?thesis by auto
  next
    case (Inr r)
    with Cons.prems have "x \<in> set rowvs" by auto
    from Cons.IH[OF this Cons.prems(2), of "out @ [r]"] Inr show ?thesis by auto
  qed
qed

lemma from_at_loop_ok:
  "\<forall>x \<in> set rowvs. from_at_row keep_id x = Inr (f x) \<Longrightarrow>
   from_at_loop keep_id rowvs out = Inr (out @ map f rowvs)"
  by (induction rowvs arbitrary: out) auto

lemma for_at_row_new:
  assumes "wf_dict row"
  shows "for_at_row keep_none True (VDict row) =
           Inr (VDict [(''fields'', VDict (map (\<lambda>kv. (fst kv, encode_value (snd kv)))
                  (if keep_none then row else filter (\<lambda>kv. snd kv \<noteq> VNone) row)))])"
proof -
  have "wf_dict (filter (\<lambda>kv. snd kv \<noteq> VNone) row)"
    using assms by (simp add: wf_dict_def distinct_map_filter)
  then show ?thesis
    using assms by (simp add: for_at_row_def step2_eq)
qed



text \<open>
  Claim C9. In update mode (\<^verbatim>\<open>new=False\<close>) a row without the identifier key makes the
  whole call raise: no output is produced for any row. When every element of the input
  is a dict the error is \<^verbatim>\<open>KeyError\<close>, the lookup failure of \<^verbatim>\<open>newrow[self._at_rec_id]\<close>.
\<close>

theorem update_row_without_id_raises:
  assumes "VDict row \<in> set rowvs" and "dict_get row at_rec_id = None"
  shows "\<exists>e. process_records_for_at (VList rowvs) keep_none False = Inl e
           \<and> ((\<forall>x \<in> set rowvs. \<exists>r. x = VDict r) \<longrightarrow> e = KeyError)"
proof -
  have only_key: "e = KeyError" if "for_at_row keep_none False (VDict r) = Inl e" for r e
    using that by (auto simp: for_at_row_def Let_def split: option.splits)
  have "dict_get (fold format_special xs acc) at_rec_id = None"
    if "dict_get acc at_rec_id = None" "at_rec_id \<notin> fst ` set xs" for xs acc
    using that
  proof (induction xs arbitrary: acc)
    case Nil
    then show ?case by simp
  next
    case (Cons kv xs)
    obtain k v where kv: "kv = (k, v)" by (cases kv)
    have "dict_get (format_special kv acc) at_rec_id = None"
      using Cons.prems kv by (auto simp: format_special_eq dict_get_dict_set)
    then show ?case using Cons by simp
  qed
  moreover have "at_rec_id \<notin> fst ` set row"
    using assms(2) by (simp add: dict_get_None_iff)
  ultimately have "dict_get (fold format_special xs xs) at_rec_id = None"
    if "set xs \<subseteq> set row" for xs
    using that by (auto simp: dict_get_None_iff)
  then have "for_at_row keep_none False (VDict row) = Inl KeyError"
    by (auto simp: for_at_row_def Let_def)
  from for_at_loop_Inl[OF assms(1) this, of "[]"]
  obtain e' y where e': "for_at_loop keep_none False rowvs [] = Inl e'"
    and y: "y \<in> set rowvs" "for_at_row keep_none False y = Inl e'"
    by blast
  have "(\<forall>x \<in> set rowvs. \<exists>r. x = VDict r) \<longrightarrow> e' = KeyError"
  proof
    assume "\<forall>x \<in> set rowvs. \<exists>r. x = VDict r"
    with y(1) obtain r where "y = VDict r" by blast
    with y(2) show "e' = KeyError" by (simp add: only_key)
  qed
  with e' show ?thesis by (simp add: process_records_for_at_def)
qed

theorem update_row_without_id_raises_witness:
  "process_records_for_at
     (VList [VDict [(''at_record_id'', VStr ''rec1''), (''a'', VInt 1)], VDict [(''a'', VInt 2)]])
     True False = Inl KeyError"
proof -
  have "VDict [(''a'', VInt 2)] \<in> set [VDict [(''at_record_id'', VStr ''rec1''), (''a'', VInt 1)],
          VDict [(''a'', VInt 2)]]"
    by simp
  moreover have "dict_get [(''a'', VInt 2)] at_rec_id = None"
    by (simp add: dict_get_def at_rec_id_def)
  ultimately show ?thesis
    using update_row_without_id_raises[of "[(''a'', VInt 2)]"
        "[VDict [(''at_record_id'', VStr ''rec1''), (''a'', VInt 1)], VDict [(''a'', VInt 2)]]" True]
    by auto
qed



lemma from_at_loop_Inr_iff:
  "from_at_loop keep_id rowvs out = Inr res \<longleftrightarrow>
   (\<exists>rs. res = out @ rs \<and> list_all2 (\<lambda>x r. from_at_row keep_id x = Inr r) rowvs rs)"
proof (induction rowvs arbitrary: out)
  case Nil
  then show ?case by auto
next
  case (Cons x rowvs)
  show ?case
  proof (cases "from_at_row keep_id x")
    case (Inl e)
    then show ?thesis by (auto simp: list_all2_Cons1)
  next
    case (Inr r)
    then show ?thesis using Cons.IH[of "out @ [r]"] by (auto simp: list_all2_Cons1)
  qed
qed

lemma from_at_row_lookup:
  assumes "from_at_row keep_id rowv = Inr newrow"
    and "py_getitem rowv ''fields'' = Inr (VDict fs)"
    and "wf_dict fs" and "(k, v) \<in> set fs"
  shows "case decode_value v of None \<Rightarrow> True | Some w \<Rightarrow> dict_get newrow k = Some w"
proof -
  from assms(1,2) obtain acc where "newrow = fold decode_field fs acc"
    by (auto simp: from_at_row_def split: if_splits sum.splits)
  moreover have "dict_get fs k = Some v"
    using assms(3,4) by (simp add: wf_dict_def dict_get_def)
  ultimately show ?thesis
    using dict_get_fold_decode[of fs acc k] assms(3)
    by (simp add: wf_dict_def split: option.splits)
qed

text \<open>
  Claim C2, as amended. For a field \<open>(k, v)\<close> of a wire record that decodes without
  error: when \<open>v\<close> is a dict whose \<^verbatim>\<open>specialValue\<close> entry is \<^verbatim>\<open>"Infinity"\<close>,
  \<^verbatim>\<open>"-Infinity"\<close> or \<^verbatim>\<open>"NaN"\<close>, whatever other entries it has, the output row maps \<open>k\<close>
  to the matching non-finite float; when \<open>v\<close> is not a dict, or is a dict whose
  \<^verbatim>\<open>specialValue\<close> entry is missing or falsy, the output row maps \<open>k\<close> to \<open>v\<close> itself.
\<close>

theorem decode_step:
  assumes "process_records_from_at (VList recs) keep_id = Inr rows"
    and "i < length recs"
    and "py_getitem (recs ! i) ''fields'' = Inr (VDict fs)"
    and "wf_dict fs" and "(k, v) \<in> set fs"
  shows "length rows = length recs
       \<and> (tag_of v = VStr ''Infinity'' \<longrightarrow> dict_get (rows ! i) k = Some (VFloat PosInf))
       \<and> (tag_of v = VStr ''-Infinity'' \<longrightarrow> dict_get (rows ! i) k = Some (VFloat NegInf))
       \<and> (tag_of v = VStr ''NaN'' \<longrightarrow> dict_get (rows ! i) k = Some (VFloat NaN))
       \<and> (\<not> truthy (tag_of v) \<longrightarrow> dict_get (rows ! i) k = Some v)"
proof -
  from assms(1) have all2: "list_all2 (\<lambda>x r. from_at_row keep_id x = Inr r) recs rows"
    by (simp add: process_records_from_at_def from_at_loop_Inr_iff)
  then have len: "length rows = length recs"
    by (auto dest: list_all2_lengthD)
  have "from_at_row keep_id (recs ! i) = Inr (rows ! i)"
    using all2 assms(2) by (auto simp: list_all2_conv_all_nth)
  from from_at_row_lookup[OF this assms(3,4,5)] len
  show ?thesis
    by (auto simp: decode_value_def split: if_splits)
qed

theorem decode_step_witness:
  "process_records_from_at
     (VList [VDict [(''id'', VStr ''rec1''),
                    (''fields'', VDict [(''x'', VDict [(''specialValue'', VStr ''-Infinity'')]),
                                        (''y'', VInt 3),
                                        (''z'', VDict [(''unit'', VStr ''m'')])])]]) True =
     Inr [[(''at_record_id'', VStr ''rec1''), (''x'', VFloat NegInf), (''y'', VInt 3),
           (''z'', VDict [(''unit'', VStr ''m'')])]]
   \<and> tag_of (VDict [(''specialValue'', VStr ''-Infinity'')]) = VStr ''-Infinity''
   \<and> dict_get [(''at_record_id'', VStr ''rec1''), (''x'', VFloat NegInf), (''y'', VInt 3),
           (''z'', VDict [(''unit'', VStr ''m'')])] ''x'' = Some (VFloat NegInf)"
proof -
  let ?fs = "[(''x'', VDict [(''specialValue'', VStr ''-Infinity'')]), (''y'', VInt 3),
              (''z'', VDict [(''unit'', VStr ''m'')])]"
  let ?recs = "[VDict [(''id'', VStr ''rec1''), (''fields'', VDict ?fs)]]"
  let ?rows = "[[(''at_record_id'', VStr ''rec1''), (''x'', VFloat NegInf), (''y'', VInt 3),
           (''z'', VDict [(''unit'', VStr ''m'')])]]"
  have run: "process_records_from_at (VList ?recs) True = Inr ?rows"
    by code_simp
  have i: "(0::nat) < length ?recs" by simp
  have f: "py_getitem (?recs ! 0) ''fields'' = Inr (VDict ?fs)"
    by (simp add: dict_get_def)
  have wf: "wf_dict ?fs" by (simp add: wf_dict_def)
  have m: "(''x'', VDict [(''specialValue'', VStr ''-Infinity'')]) \<in> set ?fs" by simp
  have t: "tag_of (VDict [(''specialValue'', VStr ''-Infinity'')]) = VStr ''-Infinity''"
    by (simp add: tag_of_def dict_get_def)
  from decode_step[OF run i f wf m] t run show ?thesis by simp
qed

text \<open>
  Claim C2 as stated fails on two objects in one record: \<open>x\<close> carries the tag next to
  another key and is decoded all the same, and \<open>y\<close> carries a tag that is none of the
  three and is not kept at all.
\<close>

theorem decode_step_counterexample:
  "process_records_from_at
     (VList [VDict [(''id'', VStr ''rec1''),
                    (''fields'', VDict [(''x'', VDict [(''specialValue'', VStr ''Infinity''),
                                                       (''unit'', VStr ''m'')]),
                                        (''y'', VDict [(''specialValue'', VStr ''Inf'')])])]]) True =
     Inr [[(''at_record_id'', VStr ''rec1''), (''x'', VFloat PosInf)]]"
  by code_simp

lemma decode_encode_scalar: "is_scalar v \<Longrightarrow> decode_value (encode_value v) = Some v"
proof (cases v)
  case (VFloat f)
  then show ?thesis
    by (cases f) (simp_all add: decode_value_def encode_value_def tag_of_def special_def dict_get_def)
qed (simp_all add: decode_value_def encode_value_def tag_of_def)

lemma fold_decode_encoded:
  "distinct (map fst (acc @ xs)) \<Longrightarrow> \<forall>kv \<in> set xs. is_scalar (snd kv) \<Longrightarrow>
   fold decode_field (map (\<lambda>kv. (fst kv, encode_value (snd kv))) xs) acc = acc @ xs"
proof (induction xs arbitrary: acc)
  case Nil
  then show ?case by simp
next
  case (Cons kv xs)
  obtain k v where kv: "kv = (k, v)" by (cases kv)
  have "k \<notin> fst ` set acc" using Cons.prems(1) kv by auto
  then have step: "decode_field (k, encode_value v) acc = acc @ [(k, v)]"
    using Cons.prems(2) kv by (simp add: decode_field_eq decode_encode_scalar dict_set_new)
  have "distinct (map fst ((acc @ [(k, v)]) @ xs))" using Cons.prems(1) kv by simp
  from Cons.IH[OF this] Cons.prems(2) step show ?case by (simp add: kv)
qed

lemma from_at_row_of_new:
  assumes "wf_dict xs" and "\<forall>kv \<in> set xs. is_scalar (snd kv)"
  shows "from_at_row False
           (VDict [(''fields'', VDict (map (\<lambda>kv. (fst kv, encode_value (snd kv))) xs))]) = Inr xs"
    and "from_at_row True
           (VDict [(''fields'', VDict (map (\<lambda>kv. (fst kv, encode_value (snd kv))) xs))]) = Inl KeyError"
  using assms fold_decode_encoded[of "[]" xs]
  by (simp_all add: from_at_row_def dict_get_Cons dict_get_Nil wf_dict_def)

text \<open>
  Claim C1, as amended. For rows with distinct keys and scalar values, encoding in
  new-record mode always succeeds, and decoding the result with \<^verbatim>\<open>keep_id=False\<close> gives
  the rows back: all of them when \<^verbatim>\<open>keep_none=True\<close>, and without their \<^verbatim>\<open>None\<close>-valued
  entries under the default \<^verbatim>\<open>keep_none=False\<close> (so exactly \<open>R\<close> when no value is
  \<^verbatim>\<open>None\<close>). The three non-finite floats come back as themselves; \<open>NaN\<close> is compared by
  the constructor, that is by "is NaN". With the default \<^verbatim>\<open>keep_id=True\<close> the decoding
  of a non-empty result raises \<^verbatim>\<open>KeyError\<close>: a new-record wire row has no \<^verbatim>\<open>id\<close>.
\<close>

theorem roundtrip_new_records:
  assumes "\<forall>r \<in> set R. wf_dict r \<and> (\<forall>kv \<in> set r. is_scalar (snd kv))"
  shows "\<exists>W. process_records_for_at (VList (map VDict R)) keep_none True = Inr W
           \<and> process_records_from_at W False =
               Inr (map (\<lambda>r. if keep_none then r else filter (\<lambda>kv. snd kv \<noteq> VNone) r) R)
           \<and> (R \<noteq> [] \<longrightarrow> process_records_from_at W True = Inl KeyError)"
proof -
  let ?keep = "\<lambda>r. if keep_none then r else filter (\<lambda>kv. snd kv \<noteq> VNone) r"
  let ?wire = "\<lambda>r. VDict [(''fields'', VDict (map (\<lambda>kv. (fst kv, encode_value (snd kv))) (?keep r)))]"
  have enc: "\<forall>x \<in> set (map VDict R). for_at_row keep_none True x =
               Inr ((\<lambda>x. case x of VDict r \<Rightarrow> ?wire r | _ \<Rightarrow> x) x)"
    using assms by (auto simp: for_at_row_new)
  have W: "process_records_for_at (VList (map VDict R)) keep_none True = Inr (VList (map ?wire R))"
    using for_at_loop_ok[OF enc, of "[]"]
    by (simp add: process_records_for_at_def comp_def)
  have kept: "wf_dict (?keep r) \<and> (\<forall>kv \<in> set (?keep r). is_scalar (snd kv))" if "r \<in> set R" for r
    using assms that by (auto simp: wf_dict_def distinct_map_filter)
  have "list_all2 (\<lambda>x r. from_at_row False x = Inr r) (map ?wire R) (map ?keep R)"
    using kept by (simp add: list_all2_map1 list_all2_map2 list_all2_same from_at_row_of_new(1))
  then have dec: "process_records_from_at (VList (map ?wire R)) False = Inr (map ?keep R)"
    by (simp add: process_records_from_at_def from_at_loop_Inr_iff)
  have err: "process_records_from_at (VList (map ?wire R)) True = Inl KeyError" if "R \<noteq> []"
  proof -
    from that obtain r R' where R: "R = r # R'" by (cases R) auto
    then have "from_at_row True (?wire r) = Inl KeyError"
      using kept[of r] by (simp add: from_at_row_of_new(2))
    then show ?thesis
      by (simp add: process_records_from_at_def R)
  qed
  from W dec err show ?thesis by simp
qed

theorem roundtrip_new_records_witness:
  "wf_dict [(''a'', VInt 1), (''b'', VNone), (''c'', VFloat NaN), (''d'', VFloat PosInf)]
   \<and> list_all (\<lambda>kv. is_scalar (snd kv))
         [(''a'', VInt 1), (''b'', VNone), (''c'', VFloat NaN), (''d'', VFloat PosInf)]
   \<and> (\<exists>W. process_records_for_at
             (VList (map VDict [[(''a'', VInt 1), (''b'', VNone), (''c'', VFloat NaN),
                                 (''d'', VFloat PosInf)]])) False True = Inr W
          \<and> process_records_from_at W False =
              Inr [[(''a'', VInt 1), (''c'', VFloat NaN), (''d'', VFloat PosInf)]]
          \<and> process_records_from_at W True = Inl KeyError)"
proof -
  let ?R = "[[(''a'', VInt 1), (''b'', VNone), (''c'', VFloat NaN), (''d'', VFloat PosInf)]]"
  have h: "\<forall>r \<in> set ?R. wf_dict r \<and> (\<forall>kv \<in> set r. is_scalar (snd kv))"
    by (simp add: wf_dict_def)
  from roundtrip_new_records[OF h, of False] show ?thesis
    by (simp add: wf_dict_def)
qed

text \<open>
  Claim C1 as stated fails on a row with a \<^verbatim>\<open>None\<close> value: under the defaults the
  decoding raises, and with \<^verbatim>\<open>keep_id=False\<close> the row comes back without its entry.
\<close>

theorem roundtrip_counterexample:
  "process_records_for_at (VList [VDict [(''a'', VNone)]]) False True =
     Inr (VList [VDict [(''fields'', VDict [])]])
   \<and> process_records_from_at (VList [VDict [(''fields'', VDict [])]]) True = Inl KeyError
   \<and> process_records_from_at (VList [VDict [(''fields'', VDict [])]]) False = Inr [[]]"
  by code_simp

section \<open>Properties of the record matcher\<close>

text \<open>
  Claim C5 fails on the code. Neither row below has a match. The first is removed from
  \<open>updated\<close> while the loop is iterating over that same list, the second row moves to
  index 0 and the iterator, now at index 1, ends the loop without testing it: the row
  with \<open>uid = 2\<close> has no match, yet it is returned among the matched rows without an
  identifier, its key is not recorded in \<open>missing_id\<close> and it is not in \<open>not_updated\<close>.
  When the unmatched row comes last (third equation) the three results are as documented.
\<close>

theorem match_leaves_unmatched_row_in_updated:
  "filter_matches [(''uid'', VInt 2)] [''uid'']
     [[(''uid'', VInt 3), (''at_record_id'', VStr ''rec3'')]] = Inr []
   \<and> match_at_rec_id
       [[(''uid'', VInt 1)], [(''uid'', VInt 2)]]
       [[(''uid'', VInt 3), (''at_record_id'', VStr ''rec3'')]]
       [''uid'']
     = Inr ([[(''uid'', VInt 2)]], [[(''uid'', VInt 1)]], [[(''uid'', VInt 1)]])
   \<and> match_at_rec_id
       [[(''uid'', VInt 3)], [(''uid'', VInt 1)]]
       [[(''uid'', VInt 3), (''at_record_id'', VStr ''rec3'')]]
       [''uid'']
     = Inr ([[(''uid'', VInt 3), (''at_record_id'', VStr ''rec3'')]],
            [[(''uid'', VInt 1)]], [[(''uid'', VInt 1)]])"
  by code_simp

text \<open>
  Claim C6 fails on the code, by the same defect. The row with \<open>uid = 2\<close> agrees with
  two rows of \<open>data_w_id\<close>, but the unmatched row before it is removed during the
  iteration, so the ambiguous row is skipped and the call returns normally. With the two rows in
  the other order (third equation) the same call raises.
\<close>

theorem match_skips_ambiguous_row:
  "filter_matches [(''uid'', VInt 2)] [''uid'']
     [[(''uid'', VInt 2), (''at_record_id'', VStr ''recA'')],
      [(''uid'', VInt 2), (''at_record_id'', VStr ''recB'')]]
     = Inr [[(''uid'', VInt 2), (''at_record_id'', VStr ''recA'')],
            [(''uid'', VInt 2), (''at_record_id'', VStr ''recB'')]]
   \<and> match_at_rec_id
       [[(''uid'', VInt 1)], [(''uid'', VInt 2)]]
       [[(''uid'', VInt 2), (''at_record_id'', VStr ''recA'')],
        [(''uid'', VInt 2), (''at_record_id'', VStr ''recB'')]]
       [''uid'']
     = Inr ([[(''uid'', VInt 2)]], [[(''uid'', VInt 1)]], [[(''uid'', VInt 1)]])
   \<and> match_at_rec_id
       [[(''uid'', VInt 2)], [(''uid'', VInt 1)]]
       [[(''uid'', VInt 2), (''at_record_id'', VStr ''recA'')],
        [(''uid'', VInt 2), (''at_record_id'', VStr ''recB'')]]
       [''uid'']
     = Inl RuntimeError"
  by code_simp

section \<open>Properties of the request loops\<close>

lemma send_Some:
  "pending s = r # rs \<Longrightarrow> send rq s = (Some r, s\<lparr>pending := rs, sent := sent s @ [rq]\<rparr>)"
  by (simp add: send_def)

lemma send_None:
  "pending s = [] \<Longrightarrow> send rq s = (None, s\<lparr>sent := sent s @ [rq]\<rparr>)"
  by (simp add: send_def)

lemma write_loop_Inr:
  "write_loop url hdrs chs records s = (Inr out, s') \<Longrightarrow>
   pending s' = drop (length chs) (pending s) \<and> length chs \<le> length (pending s) \<and>
   (\<forall>k < length chs. status_code (pending s ! k) = 200) \<and>
   length (sent s') = length (sent s) + length chs"
proof (induction chs arbitrary: records s)
  case Nil
  then show ?case by simp
next
  case (Cons chunk rest)
  show ?case
  proof (cases "pending s")
    case Nil
    with Cons.prems show ?thesis by (simp add: send_None)
  next
    case (Cons r rs)
    let ?s1 = "s\<lparr>pending := rs,
                 sent := sent s @ [\<lparr> req_method = POST, req_url = url, req_headers = hdrs,
                   req_params = [], req_data = Some (VDict [(''records'', chunk)]) \<rparr>]\<rparr>"
    from Cons.prems Cons obtain records' where ok: "status_code r = 200"
      and rec: "write_loop url hdrs rest records' ?s1 = (Inr out, s')"
      by (auto simp: send_Some split: if_splits option.splits sum.splits)
    from Cons.IH[OF rec] Cons ok show ?thesis
      by (auto simp: nth_Cons split: nat.splits)
  qed
qed

text \<open>
  Claim C8. Whatever \<^verbatim>\<open>write\<close> is called with: if one of the responses that the HTTP
  collaborator returned during the call (the \<open>k\<close>-th of the responses consumed) has a
  status other than 200, the call ends in an error. The result is then an error value
  and not a list of records, so nothing that earlier chunks returned reaches the caller.
\<close>

theorem write_fails_on_bad_status:
  assumes "write_op c s table data base process = (res, s')"
    and "k < length (pending s) - length (pending s')"
    and "status_code (pending s ! k) \<noteq> 200"
  shows "\<exists>e. res = Inl e"
proof (cases res)
  case (Inl e)
  then show ?thesis by simp
next
  case (Inr out)
  with assms(1) obtain url hdrs chs where
    loop: "write_loop url hdrs chs [] s = (Inr out, s')"
    by (auto simp: write_op_def split: sum.splits)
  from write_loop_Inr[OF loop] assms(2,3) show ?thesis
    by auto
qed

theorem write_fails_on_bad_status_witness:
  "fst (write_op (client_init ''key'' True None (Some ''appX''))
          \<lparr> pending = [\<lparr> status_code = 200,
                          json = Some (VDict [(''records'', VList (replicate 10 (VDict [(''id'', VStr ''rec'')])))]),
                          text_of = [] \<rparr>,
                        \<lparr> status_code = 422,
                          json = Some (VDict [(''error'', VStr ''INVALID'')]),
                          text_of = ''INVALID'' \<rparr>],
            sent = [] \<rparr>
          ''tbl'' (VList (replicate 15 (VDict [(''n'', VInt 1)]))) None None)
     = Inl RuntimeError
   \<and> length (sent (snd (write_op (client_init ''key'' True None (Some ''appX''))
          \<lparr> pending = [\<lparr> status_code = 200,
                          json = Some (VDict [(''records'', VList (replicate 10 (VDict [(''id'', VStr ''rec'')])))]),
                          text_of = [] \<rparr>,
                        \<lparr> status_code = 422,
                          json = Some (VDict [(''error'', VStr ''INVALID'')]),
                          text_of = ''INVALID'' \<rparr>],
            sent = [] \<rparr>
          ''tbl'' (VList (replicate 15 (VDict [(''n'', VInt 1)]))) None None))) = 2"
proof -
  let ?c = "client_init ''key'' True None (Some ''appX'')"
  let ?s = "\<lparr> pending = [\<lparr> status_code = 200,
                          json = Some (VDict [(''records'', VList (replicate 10 (VDict [(''id'', VStr ''rec'')])))]),
                          text_of = [] \<rparr>,
                        \<lparr> status_code = 422,
                          json = Some (VDict [(''error'', VStr ''INVALID'')]),
                          text_of = ''INVALID'' \<rparr>],
            sent = [] \<rparr>"
  let ?run = "write_op ?c ?s ''tbl'' (VList (replicate 15 (VDict [(''n'', VInt 1)]))) None None"
  have used: "pending (snd ?run) = []" by code_simp
  have n: "length (sent (snd ?run)) = 2" by code_simp
  have r: "fst ?run = Inl RuntimeError" by code_simp
  have eq: "?run = (fst ?run, snd ?run)" by simp
  have k: "(1::nat) < length (pending ?s) - length (pending (snd ?run))"
    by (simp add: used)
  have bad: "status_code (pending ?s ! 1) \<noteq> 200" by simp
  from write_fails_on_bad_status[OF eq k bad] r n show ?thesis by simp
qed

section \<open>Properties of the pagination loop\<close>

lemma read_page_wf:
  assumes "page_wf r"
  shows "read_page r records = Inr (records @ json_records r, json_offset r)"
proof -
  from assms have st: "status_code r = 200"
    by (simp add: page_wf_def)
  from assms obtain d where d: "json r = Some (VDict d)"
    by (auto simp: page_wf_def split: option.splits pyval.splits)
  show ?thesis
  proof (cases "dict_get d ''records''")
    case None
    then show ?thesis
      using st d
      by (simp add: read_page_def json_records_def json_offset_def extend_def split: option.splits)
  next
    case (Some v)
    with assms d obtain xs where v: "v = VList xs"
      by (auto simp: page_wf_def split: pyval.splits)
    show ?thesis
      using st d Some v
      by (simp add: read_page_def json_records_def json_offset_def extend_def split: option.splits)
  qed
qed

lemma dict_update_single: "dict_update d [(k, v)] = dict_set d k v"
  by (simp add: dict_update_def)

declare get_loop.simps [simp del]

lemma get_loop_stop: "\<not> truthy offset \<Longrightarrow> get_loop url hdrs params offset records s = (Inr records, s)"
  by (subst get_loop.simps) simp

lemma length_params_seq: "length (params_seq params offsets) = length offsets"
  by (induction offsets arbitrary: params) (simp_all add: Let_def)

lemma params_seq_step:
  "Suc i < length offsets \<Longrightarrow>
   params_seq params offsets ! Suc i =
     (if offsets ! Suc i \<noteq> VBool True
      then dict_set (params_seq params offsets ! i) ''offset'' (offsets ! Suc i)
      else params_seq params offsets ! i)"
proof (induction offsets arbitrary: params i)
  case Nil
  then show ?case by simp
next
  case (Cons offset offsets)
  let ?params1 = "if offset \<noteq> VBool True then dict_set params ''offset'' offset else params"
  show ?case
  proof (cases i)
    case 0
    with Cons.prems obtain o2 rest where "offsets = o2 # rest" by (cases offsets) auto
    with 0 show ?thesis by (simp add: Let_def)
  next
    case (Suc j)
    with Cons.prems have "Suc j < length offsets" by simp
    from Cons.IH[OF this, of ?params1] Suc show ?thesis by (simp add: Let_def)
  qed
qed

lemma get_loop_pages:
  assumes "pending s = pre @ fin # rest"
    and "\<forall>p \<in> set pre. page_wf p \<and> truthy (json_offset p)"
    and "page_wf fin" and "\<not> truthy (json_offset fin)"
    and "truthy offset"
  shows "get_loop url hdrs params offset records s =
           (Inr (records @ concat (map json_records (pre @ [fin]))),
            s\<lparr>pending := rest,
              sent := sent s @
                map (\<lambda>ps. \<lparr> req_method = GET, req_url = url, req_headers = hdrs,
                             req_params = ps, req_data = None \<rparr>)
                  (params_seq params (offset # map json_offset pre))\<rparr>)"
  using assms
proof (induction pre arbitrary: params offset records s)
  case Nil
  then show ?case
    by (subst get_loop.simps)
      (simp add: read_page_wf send_Some get_loop_stop dict_update_single Let_def)
next
  case (Cons p pre)
  let ?params1 = "if offset \<noteq> VBool True then dict_set params ''offset'' offset else params"
  let ?rq = "\<lparr> req_method = GET, req_url = url, req_headers = hdrs,
                req_params = ?params1, req_data = None \<rparr>"
  let ?s1 = "s\<lparr>pending := pre @ fin # rest, sent := sent s @ [?rq]\<rparr>"
  have p: "page_wf p" "truthy (json_offset p)"
    using Cons.prems(2) by auto
  have step: "get_loop url hdrs params offset records s =
                get_loop url hdrs ?params1 (json_offset p) (records @ json_records p) ?s1"
    using Cons.prems(1,5) p
    by (subst get_loop.simps) (simp add: read_page_wf send_Some dict_update_single Let_def)
  have pend: "pending ?s1 = pre @ fin # rest" by simp
  have rest: "\<forall>q \<in> set pre. page_wf q \<and> truthy (json_offset q)"
    using Cons.prems(2) by simp
  show ?case
    unfolding step
    by (subst Cons.IH[OF pend rest Cons.prems(3,4) p(2)]) (simp add: Let_def)
qed

text \<open>
  Claim C4, as amended. Let the collaborator answer with well-formed pages (status 200,
  a JSON object whose \<^verbatim>\<open>records\<close> field is a list or missing): first the pages \<open>pre\<close>,
  each with a truthy \<^verbatim>\<open>offset\<close> field, then a page \<open>fin\<close> whose \<^verbatim>\<open>offset\<close> field is
  missing or falsy, then anything. Then \<^verbatim>\<open>get\<close> sends exactly one GET request per page
  of \<open>pre @ [fin]\<close> and leaves the rest unread. The first request has no \<^verbatim>\<open>offset\<close>
  parameter. Request \<open>i + 1\<close> has the parameters of request \<open>i\<close> with \<^verbatim>\<open>offset\<close> set to the
  \<^verbatim>\<open>offset\<close> field of page \<open>i\<close>, except when that field is the boolean \<^verbatim>\<open>true\<close>: then the
  loop goes on with the parameters of request \<open>i\<close> unchanged. The records gathered are
  the \<^verbatim>\<open>records\<close> lists of the pages read, in order (returned as they are, or through
  \<^verbatim>\<open>_process_records_from_at\<close> when processing is on).
\<close>

theorem get_pagination:
  assumes "resolve_base base c = Inr b"
    and "pending s = pre @ fin # rest"
    and "\<forall>p \<in> set pre. page_wf p \<and> truthy (json_offset p)"
    and "page_wf fin" and "\<not> truthy (json_offset fin)"
  shows "\<exists>c' s' reqs.
           get c s table view base process direct =
             ((if resolve_process process c
               then (case process_records_from_at
                            (VList (concat (map json_records (pre @ [fin])))) True of
                       Inl e \<Rightarrow> Inl e
                     | Inr rows \<Rightarrow> Inr (map VDict rows))
               else Inr (concat (map json_records (pre @ [fin])))), c', s')
           \<and> pending s' = rest
           \<and> sent s' = sent s @ reqs
           \<and> length reqs = Suc (length pre)
           \<and> (\<forall>rq \<in> set reqs. req_method rq = GET)
           \<and> dict_get (req_params (reqs ! 0)) ''offset'' = None
           \<and> (\<forall>i < length pre.
                 req_params (reqs ! Suc i) =
                   (if json_offset (pre ! i) \<noteq> VBool True
                    then dict_set (req_params (reqs ! i)) ''offset'' (json_offset (pre ! i))
                    else req_params (reqs ! i)))
           \<and> (\<forall>i < length pre.
                 json_offset (pre ! i) \<noteq> VBool True \<longrightarrow>
                 dict_get (req_params (reqs ! Suc i)) ''offset'' = Some (json_offset (pre ! i)))"
proof -
  define params where
    "params = (case view of None \<Rightarrow> [] | Some v \<Rightarrow> if v \<noteq> [] then dict_update [] [(''view'', VStr v)] else [])"
  define seq where "seq = params_seq params (VBool True # map json_offset pre)"
  have no_offset: "dict_get params ''offset'' = None"
    by (simp add: params_def dict_update_single dict_get_Cons dict_get_Nil split: option.splits)
  have loop: "get_loop url hdrs params (VBool True) [] s =
           (Inr (concat (map json_records (pre @ [fin]))),
            s\<lparr>pending := rest,
              sent := sent s @
                map (\<lambda>ps. \<lparr> req_method = GET, req_url = url, req_headers = hdrs,
                             req_params = ps, req_data = None \<rparr>) seq\<rparr>)"
    for url hdrs
    using get_loop_pages[OF assms(2,3,4,5), of "VBool True" url hdrs params "[]"]
    by (simp add: seq_def)
  have len: "length seq = Suc (length pre)"
    by (simp add: seq_def length_params_seq)
  have first: "seq ! 0 = params"
    by (simp add: seq_def)
  have later: "seq ! Suc i =
                 (if json_offset (pre ! i) \<noteq> VBool True
                  then dict_set (seq ! i) ''offset'' (json_offset (pre ! i))
                  else seq ! i)" if "i < length pre" for i
    using that params_seq_step[of i "VBool True # map json_offset pre" params]
    by (simp add: seq_def)
  have sent_off: "dict_get (seq ! Suc i) ''offset'' = Some (json_offset (pre ! i))"
    if "i < length pre" "json_offset (pre ! i) \<noteq> VBool True" for i
    using that later[of i] by (simp add: dict_get_dict_set)
  show ?thesis
    using assms(1) len first no_offset later sent_off
    by (simp add: get_def Let_def loop params_def[symmetric] split: sum.splits)
qed

theorem get_pagination_witness:
  "get (client_init ''key'' False None (Some ''appX''))
     \<lparr> pending = [\<lparr> status_code = 200,
                     json = Some (VDict [(''records'', VList [VInt 1, VInt 2]),
                                         (''offset'', VStr ''itrA'')]),
                     text_of = [] \<rparr>,
                   \<lparr> status_code = 200,
                     json = Some (VDict [(''records'', VList [VInt 3]),
                                         (''offset'', VBool True)]),
                     text_of = [] \<rparr>,
                   \<lparr> status_code = 200,
                     json = Some (VDict [(''records'', VList [VInt 4])]),
                     text_of = [] \<rparr>],
       sent = [] \<rparr>
     ''tbl'' None None None True
   = (Inr [VInt 1, VInt 2, VInt 3, VInt 4],
      client_init ''key'' False None (Some ''appX''),
      \<lparr> pending = [],
        sent = map (\<lambda>ps. \<lparr> req_method = GET, req_url = ''https://api.airtable.com/v0/appX/tbl'',
                            req_headers = [(''Authorization'', VStr ''Bearer key''),
                                           (''Content-Type'', VStr ''application/json'')],
                            req_params = ps, req_data = None \<rparr>)
                 [[], [(''offset'', VStr ''itrA'')], [(''offset'', VStr ''itrA'')]] \<rparr>)
   \<and> concat (map json_records
       [\<lparr> status_code = 200,
          json = Some (VDict [(''records'', VList [VInt 1, VInt 2]), (''offset'', VStr ''itrA'')]),
          text_of = [] \<rparr>,
        \<lparr> status_code = 200,
          json = Some (VDict [(''records'', VList [VInt 3]), (''offset'', VBool True)]),
          text_of = [] \<rparr>,
        \<lparr> status_code = 200,
          json = Some (VDict [(''records'', VList [VInt 4])]),
          text_of = [] \<rparr>])
     = [VInt 1, VInt 2, VInt 3, VInt 4]"
proof -
  let ?c = "client_init ''key'' False None (Some ''appX'')"
  let ?p1 = "\<lparr> status_code = 200,
                json = Some (VDict [(''records'', VList [VInt 1, VInt 2]), (''offset'', VStr ''itrA'')]),
                text_of = [] \<rparr>"
  let ?p2 = "\<lparr> status_code = 200,
                json = Some (VDict [(''records'', VList [VInt 3]), (''offset'', VBool True)]),
                text_of = [] \<rparr>"
  let ?p3 = "\<lparr> status_code = 200, json = Some (VDict [(''records'', VList [VInt 4])]),
                text_of = [] \<rparr>"
  let ?s = "\<lparr> pending = [?p1, ?p2, ?p3], sent = [] \<rparr>"
  have b: "resolve_base None ?c = Inr ''appX''" by code_simp
  have pend: "pending ?s = [?p1, ?p2] @ ?p3 # []" by simp
  have wf1: "page_wf ?p1" by code_simp
  have wf2: "page_wf ?p2" by code_simp
  have wf3: "page_wf ?p3" by code_simp
  have off1: "json_offset ?p1 = VStr ''itrA''" by code_simp
  have off2: "json_offset ?p2 = VBool True" by code_simp
  have off3: "json_offset ?p3 = VNone" by code_simp
  have recs: "concat (map json_records ([?p1, ?p2] @ [?p3])) = [VInt 1, VInt 2, VInt 3, VInt 4]"
    by code_simp
  have pre: "\<forall>p \<in> set [?p1, ?p2]. page_wf p \<and> truthy (json_offset p)"
    using wf1 wf2 off1 off2 by simp
  have fin: "\<not> truthy (json_offset ?p3)" by (simp add: off3)
  have proc: "\<not> resolve_process None ?c" by code_simp
  have run: "get ?c ?s ''tbl'' None None None True
   = (Inr [VInt 1, VInt 2, VInt 3, VInt 4], ?c,
      \<lparr> pending = [],
        sent = map (\<lambda>ps. \<lparr> req_method = GET, req_url = ''https://api.airtable.com/v0/appX/tbl'',
                            req_headers = [(''Authorization'', VStr ''Bearer key''),
                                           (''Content-Type'', VStr ''application/json'')],
                            req_params = ps, req_data = None \<rparr>)
                 [[], [(''offset'', VStr ''itrA'')], [(''offset'', VStr ''itrA'')]] \<rparr>)"
    by code_simp
  from get_pagination[OF b pend pre wf3 fin, of "''tbl''" None None True]
  have "fst (get ?c ?s ''tbl'' None None None True) = Inr [VInt 1, VInt 2, VInt 3, VInt 4]"
    using proc recs by auto
  with run recs show ?thesis by simp
qed

text \<open>
  Claim C4 as stated fails where a response carries an offset that is falsy. The first
  page below has the field \<^verbatim>\<open>offset\<close>, with the empty string as its value: the loop
  \<^verbatim>\<open>while offset\<close> ends after one request and the second page is never fetched.
\<close>

theorem get_pagination_counterexample:
  "py_get (VDict [(''records'', VList [VInt 1, VInt 2]), (''offset'', VStr [])]) ''offset''
     = Inr (VStr [])
   \<and> get (client_init ''key'' False None (Some ''appX''))
          \<lparr> pending = [\<lparr> status_code = 200,
                          json = Some (VDict [(''records'', VList [VInt 1, VInt 2]),
                                              (''offset'', VStr [])]),
                          text_of = [] \<rparr>,
                        \<lparr> status_code = 200,
                          json = Some (VDict [(''records'', VList [VInt 3])]),
                          text_of = [] \<rparr>],
            sent = [] \<rparr>
          ''tbl'' None None None True
     = (Inr [VInt 1, VInt 2],
        client_init ''key'' False None (Some ''appX''),
        \<lparr> pending = [\<lparr> status_code = 200,
                        json = Some (VDict [(''records'', VList [VInt 3])]),
                        text_of = [] \<rparr>],
          sent = [\<lparr> req_method = GET, req_url = ''https://api.airtable.com/v0/appX/tbl'',
                    req_headers = [(''Authorization'', VStr ''Bearer key''),
                                   (''Content-Type'', VStr ''application/json'')],
                    req_params = [], req_data = None \<rparr>] \<rparr>)"
  by code_simp

section \<open>Headers sent by the client\<close>

lemma write_loop_sent:
  "write_loop url hdrs chs records s = (res, s') \<Longrightarrow>
   \<exists>new. sent s' = sent s @ new \<and> (\<forall>rq \<in> set new. req_headers rq = hdrs)"
proof (induction chs arbitrary: records s)
  case Nil
  then show ?case by simp
next
  case (Cons chunk rest)
  let ?rq = "\<lparr> req_method = POST, req_url = url, req_headers = hdrs, req_params = [],
                req_data = Some (VDict [(''records'', chunk)]) \<rparr>"
  show ?case
  proof (cases "\<exists>records'. write_loop url hdrs (chunk # rest) records s =
                  write_loop url hdrs rest records' (snd (send ?rq s))")
    case True
    then obtain records' where
      "write_loop url hdrs rest records' (snd (send ?rq s)) = (res, s')"
      using Cons.prems by auto
    from Cons.IH[OF this] obtain new where
      "sent s' = sent (snd (send ?rq s)) @ new" "\<forall>rq \<in> set new. req_headers rq = hdrs"
      by blast
    then have "sent s' = sent s @ (?rq # new) \<and> (\<forall>rq \<in> set (?rq # new). req_headers rq = hdrs)"
      by (auto simp: send_def split: list.splits)
    then show ?thesis by blast
  next
    case False
    with Cons.prems have "\<And>records'. write_loop url hdrs rest records' (snd (send ?rq s)) \<noteq> (res, s')"
      by metis
    then have "s' = snd (send ?rq s)"
      using Cons.prems
      by (auto split: prod.splits option.splits if_splits sum.splits)
    then have "sent s' = sent s @ [?rq] \<and> (\<forall>rq \<in> set [?rq]. req_headers rq = hdrs)"
      by (auto simp: send_def split: list.splits)
    then show ?thesis by blast
  qed
qed

lemma update_loop_sent:
  "update_loop url hdrs chs records s = (res, s') \<Longrightarrow>
   \<exists>new. sent s' = sent s @ new \<and> (\<forall>rq \<in> set new. req_headers rq = hdrs)"
proof (induction chs arbitrary: records s)
  case Nil
  then show ?case by simp
next
  case (Cons chunk rest)
  let ?rq = "\<lparr> req_method = PATCH, req_url = url, req_headers = hdrs, req_params = [],
                req_data = Some (VDict [(''records'', chunk)]) \<rparr>"
  show ?case
  proof (cases "\<exists>records'. update_loop url hdrs (chunk # rest) records s =
                  update_loop url hdrs rest records' (snd (send ?rq s))")
    case True
    then obtain records' where
      "update_loop url hdrs rest records' (snd (send ?rq s)) = (res, s')"
      using Cons.prems by auto
    from Cons.IH[OF this] obtain new where
      "sent s' = sent (snd (send ?rq s)) @ new" "\<forall>rq \<in> set new. req_headers rq = hdrs"
      by blast
    then have "sent s' = sent s @ (?rq # new) \<and> (\<forall>rq \<in> set (?rq # new). req_headers rq = hdrs)"
      by (auto simp: send_def split: list.splits)
    then show ?thesis by blast
  next
    case False
    with Cons.prems have "\<And>records'. update_loop url hdrs rest records' (snd (send ?rq s)) \<noteq> (res, s')"
      by metis
    then have "s' = snd (send ?rq s)"
      using Cons.prems
      by (auto split: prod.splits option.splits if_splits sum.splits)
    then have "sent s' = sent s @ [?rq] \<and> (\<forall>rq \<in> set [?rq]. req_headers rq = hdrs)"
      by (auto simp: send_def split: list.splits)
    then show ?thesis by blast
  qed
qed

lemma delete_loop_sent:
  "delete_loop url hdrs chs records s = (res, s') \<Longrightarrow>
   \<exists>new. sent s' = sent s @ new \<and> (\<forall>rq \<in> set new. req_headers rq = hdrs)"
proof (induction chs arbitrary: records s)
  case Nil
  then show ?case by simp
next
  case (Cons chunk rest)
  let ?rq = "\<lparr> req_method = DELETE, req_url = url, req_headers = hdrs,
                req_params = [(''records[]'', chunk)], req_data = None \<rparr>"
  show ?case
  proof (cases "\<exists>records'. delete_loop url hdrs (chunk # rest) records s =
                  delete_loop url hdrs rest records' (snd (send ?rq s))")
    case True
    then obtain records' where
      "delete_loop url hdrs rest records' (snd (send ?rq s)) = (res, s')"
      using Cons.prems by auto
    from Cons.IH[OF this] obtain new where
      "sent s' = sent (snd (send ?rq s)) @ new" "\<forall>rq \<in> set new. req_headers rq = hdrs"
      by blast
    then have "sent s' = sent s @ (?rq # new) \<and> (\<forall>rq \<in> set (?rq # new). req_headers rq = hdrs)"
      by (auto simp: send_def split: list.splits)
    then show ?thesis by blast
  next
    case False
    with Cons.prems have "\<And>records'. delete_loop url hdrs rest records' (snd (send ?rq s)) \<noteq> (res, s')"
      by metis
    then have "s' = snd (send ?rq s)"
      using Cons.prems
      by (auto split: prod.splits option.splits if_splits sum.splits)
    then have "sent s' = sent s @ [?rq] \<and> (\<forall>rq \<in> set [?rq]. req_headers rq = hdrs)"
      by (auto simp: send_def split: list.splits)
    then show ?thesis by blast
  qed
qed

lemma get_loop_sent:
  "get_loop url hdrs params offset records s = (res, s') \<Longrightarrow>
   \<exists>new. sent s' = sent s @ new \<and> (\<forall>rq \<in> set new. req_headers rq = hdrs)"
proof (induction "length (pending s)" arbitrary: params offset records s rule: less_induct)
  case less
  show ?case
  proof (cases "truthy offset")
    case False
    with less.prems have "s' = s" by (simp add: get_loop_stop)
    then show ?thesis by simp
  next
    case True
    let ?params = "if offset \<noteq> VBool True then dict_update params [(''offset'', offset)] else params"
    let ?rq = "\<lparr> req_method = GET, req_url = url, req_headers = hdrs,
                  req_params = ?params, req_data = None \<rparr>"
    have one: "sent (snd (send ?rq s)) = sent s @ [?rq]"
      by (auto simp: send_def split: list.splits)
    show ?thesis
    proof (cases "\<exists>r rs records' offset'. pending s = r # rs \<and> read_page r records = Inr (records', offset')")
      case True
      then obtain r rs records' offset' where
        p: "pending s = r # rs" and rp: "read_page r records = Inr (records', offset')"
        by blast
      have "get_loop url hdrs params offset records s =
              get_loop url hdrs ?params offset' records' (snd (send ?rq s))"
        using \<open>truthy offset\<close> p rp by (subst get_loop.simps) (simp add: Let_def)
      with less.prems have rec: "get_loop url hdrs ?params offset' records' (snd (send ?rq s)) = (res, s')"
        by simp
      have "length (pending (snd (send ?rq s))) < length (pending s)"
        using p by (simp add: send_def)
      from less.hyps[OF this rec] obtain new where
        "sent s' = sent (snd (send ?rq s)) @ new" "\<forall>rq \<in> set new. req_headers rq = hdrs"
        by blast
      with one have "sent s' = sent s @ (?rq # new) \<and> (\<forall>rq \<in> set (?rq # new). req_headers rq = hdrs)"
        by simp
      then show ?thesis by blast
    next
      case False
      have "get_loop url hdrs params offset records s = (res, s') \<Longrightarrow> s' = snd (send ?rq s)"
        using \<open>truthy offset\<close> False
        by (subst (asm) get_loop.simps) (auto simp: Let_def split: list.splits sum.splits)
      with less.prems one have "sent s' = sent s @ [?rq] \<and> (\<forall>rq \<in> set [?rq]. req_headers rq = hdrs)"
        by simp
      then show ?thesis by blast
    qed
  qed
qed

lemma write_op_sent:
  "write_op c s table data base process = (res, s') \<Longrightarrow>
   \<exists>new. sent s' = sent s @ new \<and> (\<forall>rq \<in> set new. req_headers rq = c_headers c)"
  by (auto simp: write_op_def split: sum.splits dest: write_loop_sent)

lemma update_sent:
  "update c s table data base process keep_none = (res, s') \<Longrightarrow>
   \<exists>new. sent s' = sent s @ new \<and> (\<forall>rq \<in> set new. req_headers rq = c_headers c)"
  by (auto simp: update_def split: sum.splits dest: update_loop_sent)

lemma delete_sent:
  "delete c s table list_of_ids base = (res, s') \<Longrightarrow>
   \<exists>new. sent s' = sent s @ new \<and> (\<forall>rq \<in> set new. req_headers rq = c_headers c)"
  by (auto simp: delete_def split: sum.splits dest: delete_loop_sent)

lemma get_sent:
  assumes "get c s table view base process direct = (res, c', s')"
  shows "(c' = c \<or> c' = c\<lparr>c_headers := dict_update (c_headers c) (c_cache_header c)\<rparr>)
       \<and> (\<exists>new. sent s' = sent s @ new \<and> (\<forall>rq \<in> set new. req_headers rq = c_headers c'))"
proof (cases "resolve_base base c")
  case (Inl e)
  with assms show ?thesis by (simp add: get_def Let_def)
next
  case (Inr b)
  define d where "d = (if c_cache_token c = None then True else direct)"
  define c1 where "c1 = (if \<not> d then c\<lparr>c_headers := dict_update (c_headers c) (c_cache_header c)\<rparr> else c)"
  obtain r s1 where loop: "get_loop ((if d then at_url else cache_url) @ ''/'' @ b @ ''/'' @ table)
      (c_headers c1)
      (case view of None \<Rightarrow> [] | Some v \<Rightarrow> if v \<noteq> [] then dict_update [] [(''view'', VStr v)] else [])
      (VBool True) [] s = (r, s1)"
    by (cases "get_loop ((if d then at_url else cache_url) @ ''/'' @ b @ ''/'' @ table)
      (c_headers c1)
      (case view of None \<Rightarrow> [] | Some v \<Rightarrow> if v \<noteq> [] then dict_update [] [(''view'', VStr v)] else [])
      (VBool True) [] s") auto
  from assms Inr loop have "c' = c1" "s' = s1"
    by (auto simp: get_def Let_def d_def c1_def split: sum.splits if_splits)
  with get_loop_sent[OF loop] show ?thesis
    by (auto simp: c1_def)
qed

lemma get_cached_headers:
  assumes "get c s table view base process False = (res, c', s')"
    and "c_cache_token c \<noteq> None" and "resolve_base base c = Inr b"
  shows "c' = c\<lparr>c_headers := dict_update (c_headers c) (c_cache_header c)\<rparr>"
  using assms by (auto simp: get_def Let_def split: sum.splits prod.splits if_splits)

lemma run_call_inv:
  assumes "dict_get (c_headers c) k = Some v" and "c_cache_header c = [(k, v)]"
    and "run_call call (c, s) = (c', s')"
  shows "dict_get (c_headers c') k = Some v \<and> c_cache_header c' = [(k, v)]
       \<and> (\<exists>new. sent s' = sent s @ new \<and> (\<forall>rq \<in> set new. dict_get (req_headers rq) k = Some v))"
proof (cases call)
  case (Get table view base process direct)
  with assms(3) obtain res where g: "get c s table view base process direct = (res, c', s')"
    by (cases "get c s table view base process direct") auto
  from get_sent[OF g] assms(1,2) show ?thesis
    by (auto simp: dict_update_single dict_get_dict_set)
next
  case (Write table data base process)
  with assms(3) obtain res where "write_op c s table data base process = (res, s')" and "c' = c"
    by (cases "write_op c s table data base process") auto
  with write_op_sent assms(1,2) show ?thesis by fastforce
next
  case (Update table data base process keep_none)
  with assms(3) obtain res where "update c s table data base process keep_none = (res, s')" and "c' = c"
    by (cases "update c s table data base process keep_none") auto
  with update_sent assms(1,2) show ?thesis by fastforce
next
  case (Delete table list_of_ids base)
  with assms(3) obtain res where "delete c s table list_of_ids base = (res, s')" and "c' = c"
    by (cases "delete c s table list_of_ids base") auto
  with delete_sent assms(1,2) show ?thesis by fastforce
qed

lemma run_calls_inv:
  assumes "dict_get (c_headers c) k = Some v" and "c_cache_header c = [(k, v)]"
    and "run_calls calls (c, s) = (c', s')"
  shows "dict_get (c_headers c') k = Some v
       \<and> (\<exists>new. sent s' = sent s @ new \<and> (\<forall>rq \<in> set new. dict_get (req_headers rq) k = Some v))"
  using assms
proof (induction calls arbitrary: c s)
  case Nil
  then show ?case by (simp add: run_calls_def)
next
  case (Cons call calls)
  obtain c1 s1 where one: "run_call call (c, s) = (c1, s1)"
    by (cases "run_call call (c, s)")
  with Cons.prems(3) have rest: "run_calls calls (c1, s1) = (c', s')"
    by (simp add: run_calls_def)
  from run_call_inv[OF Cons.prems(1,2) one]
  obtain new1 where inv: "dict_get (c_headers c1) k = Some v" "c_cache_header c1 = [(k, v)]"
    and new1: "sent s1 = sent s @ new1" "\<forall>rq \<in> set new1. dict_get (req_headers rq) k = Some v"
    by blast
  from Cons.IH[OF inv rest] obtain new2 where
    "dict_get (c_headers c') k = Some v" "sent s' = sent s1 @ new2"
    "\<forall>rq \<in> set new2. dict_get (req_headers rq) k = Some v"
    by blast
  with new1 have "dict_get (c_headers c') k = Some v \<and> sent s' = sent s @ (new1 @ new2)
      \<and> (\<forall>rq \<in> set (new1 @ new2). dict_get (req_headers rq) k = Some v)"
    by auto
  then show ?case by blast
qed

text \<open>
  Claim C10. Take a client built with a cache token and a call of \<^verbatim>\<open>get\<close> with
  \<^verbatim>\<open>direct=False\<close> that gets as far as choosing its headers (a base is known). Before the
  call the client's headers have no \<^verbatim>\<open>X-Mw-Bearer\<close> entry; after it they map
  \<^verbatim>\<open>X-Mw-Bearer\<close> to the token, whether the call returned or raised, and they still do
  after any sequence of later calls of \<^verbatim>\<open>get\<close> (direct or not), \<^verbatim>\<open>write\<close>, \<^verbatim>\<open>update\<close>
  and \<^verbatim>\<open>delete\<close>; every request sent by the cached call and by the later calls carries
  the header.
\<close>

theorem cache_header_persists:
  assumes "resolve_base base (client_init apikey proc (Some tok) base0) = Inr b"
    and "get (client_init apikey proc (Some tok) base0) s table view base process False
           = (res, c1, s1)"
    and "run_calls calls (c1, s1) = (c2, s2)"
  shows "dict_get (c_headers (client_init apikey proc (Some tok) base0)) ''X-Mw-Bearer'' = None
       \<and> dict_get (c_headers c1) ''X-Mw-Bearer'' = Some (VStr tok)
       \<and> dict_get (c_headers c2) ''X-Mw-Bearer'' = Some (VStr tok)
       \<and> (\<exists>new. sent s2 = sent s @ new
             \<and> (\<forall>rq \<in> set new. dict_get (req_headers rq) ''X-Mw-Bearer'' = Some (VStr tok)))"
proof -
  let ?c = "client_init apikey proc (Some tok) base0"
  have before: "dict_get (c_headers ?c) ''X-Mw-Bearer'' = None"
    by (simp add: client_init_def dict_get_Cons dict_get_Nil)
  have tok: "c_cache_token ?c \<noteq> None" by (simp add: client_init_def)
  have c1: "c1 = ?c\<lparr>c_headers := dict_update (c_headers ?c) (c_cache_header ?c)\<rparr>"
    by (rule get_cached_headers[OF assms(2) tok assms(1)])
  then have h1: "dict_get (c_headers c1) ''X-Mw-Bearer'' = Some (VStr tok)"
    and ch1: "c_cache_header c1 = [(''X-Mw-Bearer'', VStr tok)]"
    by (simp_all add: client_init_def dict_update_single dict_get_dict_set dict_get_Cons)
  from get_sent[OF assms(2)] obtain new1 where
    new1: "sent s1 = sent s @ new1" "\<forall>rq \<in> set new1. req_headers rq = c_headers c1"
    by blast
  from run_calls_inv[OF h1 ch1 assms(3)] obtain new2 where
    h2: "dict_get (c_headers c2) ''X-Mw-Bearer'' = Some (VStr tok)"
    and new2: "sent s2 = sent s1 @ new2"
      "\<forall>rq \<in> set new2. dict_get (req_headers rq) ''X-Mw-Bearer'' = Some (VStr tok)"
    by blast
  have "sent s2 = sent s @ (new1 @ new2)
      \<and> (\<forall>rq \<in> set (new1 @ new2). dict_get (req_headers rq) ''X-Mw-Bearer'' = Some (VStr tok))"
    using new1 new2 h1 by auto
  with before h1 h2 show ?thesis by blast
qed

theorem cache_header_persists_witness:
  "map (\<lambda>rq. (req_method rq, dict_get (req_headers rq) ''X-Mw-Bearer''))
     (sent (snd (run_calls
        [Write ''tbl'' (VList [VDict [(''fields'', VDict [(''n'', VInt 1)])]]) None None,
         Get ''tbl'' None None None True]
        (snd (get (client_init ''key'' False (Some ''tok'') (Some ''appX''))
                \<lparr> pending = [\<lparr> status_code = 200,
                                json = Some (VDict [(''records'', VList [VInt 1])]),
                                text_of = [] \<rparr>,
                              \<lparr> status_code = 200,
                                json = Some (VDict [(''records'', VList [VInt 2])]),
                                text_of = [] \<rparr>,
                              \<lparr> status_code = 200,
                                json = Some (VDict [(''records'', VList [VInt 3])]),
                                text_of = [] \<rparr>],
                  sent = [] \<rparr>
                ''tbl'' None None None False)))))
   = [(GET, Some (VStr ''tok'')), (POST, Some (VStr ''tok'')), (GET, Some (VStr ''tok''))]
   \<and> dict_get (c_headers (client_init ''key'' False (Some ''tok'') (Some ''appX''))) ''X-Mw-Bearer''
       = None"
proof -
  let ?c = "client_init ''key'' False (Some ''tok'') (Some ''appX'')"
  let ?s = "\<lparr> pending = [\<lparr> status_code = 200,
                                json = Some (VDict [(''records'', VList [VInt 1])]),
                                text_of = [] \<rparr>,
                              \<lparr> status_code = 200,
                                json = Some (VDict [(''records'', VList [VInt 2])]),
                                text_of = [] \<rparr>,
                              \<lparr> status_code = 200,
                                json = Some (VDict [(''records'', VList [VInt 3])]),
                                text_of = [] \<rparr>],
                  sent = [] \<rparr>"
  let ?calls = "[Write ''tbl'' (VList [VDict [(''fields'', VDict [(''n'', VInt 1)])]]) None None,
         Get ''tbl'' None None None True]"
  let ?g = "get ?c ?s ''tbl'' None None None False"
  have b: "resolve_base None ?c = Inr ''appX''" by code_simp
  have g: "?g = (fst ?g, fst (snd ?g), snd (snd ?g))" by simp
  have r: "run_calls ?calls (fst (snd ?g), snd (snd ?g))
             = (fst (run_calls ?calls (snd ?g)), snd (run_calls ?calls (snd ?g)))"
    by simp
  have log: "map (\<lambda>rq. (req_method rq, dict_get (req_headers rq) ''X-Mw-Bearer''))
      (sent (snd (run_calls ?calls (snd ?g))))
      = [(GET, Some (VStr ''tok'')), (POST, Some (VStr ''tok'')), (GET, Some (VStr ''tok''))]"
    by code_simp
  from cache_header_persists[OF b g r] log show ?thesis by simp
qed

end
